theory Spec2Isabelle
  imports Main "HOL-Library.Sublist"
begin

section \<open>Python strings\<close>

text \<open>
  A Python \<open>str\<close> is a sequence of Unicode code points, modelled as a list of naturals.
  \<open>str\<close> turns a literal of the theory into such a sequence.
\<close>

type_synonym pystr = "nat list"

definition str :: "string \<Rightarrow> pystr" where
  "str s = map of_char s"

text \<open>
  The code points that \<open>str.strip()\<close> removes: those for which \<open>str.isspace\<close>
  holds in CPython.
\<close>

definition is_space :: "nat \<Rightarrow> bool" where
  "is_space c \<longleftrightarrow>
     (9 \<le> c \<and> c \<le> 13) \<or> (28 \<le> c \<and> c \<le> 32) \<or> c = 133 \<or> c = 160 \<or> c = 5760 \<or>
     (8192 \<le> c \<and> c \<le> 8202) \<or> c = 8232 \<or> c = 8233 \<or> c = 8239 \<or> c = 8287 \<or> c = 12288"

definition strip :: "pystr \<Rightarrow> pystr" where
  "strip s = rev (dropWhile is_space (rev (dropWhile is_space s)))"

text \<open>
  \<open>s.replace(old, new)\<close>: the occurrences of \<open>old\<close> are replaced from left to right,
  without overlap. With an empty \<open>old\<close>, Python inserts \<open>new\<close> before every code point
  and at the end.
\<close>

function replace_from :: "pystr \<Rightarrow> pystr \<Rightarrow> pystr \<Rightarrow> pystr" where
  "replace_from old new [] = []"
| "replace_from old new (c # cs) =
     (if old \<noteq> [] \<and> prefix old (c # cs)
      then new @ replace_from old new (drop (length old) (c # cs))
      else c # replace_from old new cs)"
  by pat_completeness auto
termination
  by (relation "measure (\<lambda>(old, new, s). length s)") auto

definition replace :: "pystr \<Rightarrow> pystr \<Rightarrow> pystr \<Rightarrow> pystr" where
  "replace s old new =
     (if old = [] then new @ concat (map (\<lambda>c. c # new) s) else replace_from old new s)"

text \<open>\<open>sub in s\<close> on strings: \<open>sub\<close> occurs in \<open>s\<close> as a contiguous block.\<close>

fun contains :: "pystr \<Rightarrow> pystr \<Rightarrow> bool" where
  "contains sub [] \<longleftrightarrow> sub = []"
| "contains sub (c # cs) \<longleftrightarrow> prefix sub (c # cs) \<or> contains sub cs"

section \<open>The page as the scraper observes it\<close>

text \<open>
  Every exception the browser or the file system raises is a subclass of \<open>Exception\<close>.
\<close>

datatype error = TimeoutError | PlaywrightError | RuntimeError string | OSError

text \<open>
  An element handle is modelled by what the scraper's queries on it return. A cell is a
  \<open>td\<close> or a \<open>th\<close>; reading its text gives a string or raises. A row holds its
  cells in document order; each of its queries may raise. The page is a snapshot: a query
  asked twice gives the same answer.
\<close>

datatype cell_kind = Td | Th

record cell =
  kind :: cell_kind
  inner_text :: "error + pystr"

record row =
  cells :: "cell list"
  query_error :: "error option"
  row_text :: "error + pystr"

record table =
  rows :: "row list"
  tr_query_error :: "error option"

text \<open>\<open>row.query_selector_all("td")\<close> and \<open>row.query_selector_all("td, th")\<close>.\<close>

definition query_td :: "row \<Rightarrow> error + cell list" where
  "query_td r =
     (case query_error r of
        Some e \<Rightarrow> Inl e
      | None \<Rightarrow> Inr (filter (\<lambda>c. kind c = Td) (cells r)))"

definition query_td_th :: "row \<Rightarrow> error + cell list" where
  "query_td_th r =
     (case query_error r of
        Some e \<Rightarrow> Inl e
      | None \<Rightarrow> Inr (cells r))"

text \<open>\<open>table.query_selector_all("tr")\<close>.\<close>

definition query_tr :: "table \<Rightarrow> error + row list" where
  "query_tr t =
     (case tr_query_error t of
        Some e \<Rightarrow> Inl e
      | None \<Rightarrow> Inr (rows t))"

section \<open>Table discovery: \<open>find_results_table\<close>\<close>

definition nbsp :: pystr where
  "nbsp = str ''&nbsp;''"

text \<open>
  The loop over the cells of one sampled row: \<open>Inr True\<close> when a cell with content is met
  (the function returns the table), \<open>Inr False\<close> when the cells are exhausted, \<open>Inl e\<close>
  when reading a cell raises.
\<close>

fun scan_cells :: "cell list \<Rightarrow> error + bool" where
  "scan_cells [] = Inr False"
| "scan_cells (c # cs) =
     (case inner_text c of
        Inl e \<Rightarrow> Inl e
      | Inr cell_text \<Rightarrow>
          if strip cell_text \<noteq> [] \<and> strip cell_text \<noteq> nbsp then Inr True
          else scan_cells cs)"

fun scan_rows :: "row list \<Rightarrow> error + bool" where
  "scan_rows [] = Inr False"
| "scan_rows (r # rs) =
     (case query_td r of
        Inl e \<Rightarrow> Inl e
      | Inr row_cells \<Rightarrow>
          (case scan_cells row_cells of
             Inl e \<Rightarrow> Inl e
           | Inr True \<Rightarrow> Inr True
           | Inr False \<Rightarrow> scan_rows rs))"

text \<open>
  The body of the \<open>try\<close> for one table: \<open>Inr (Some (len(rows), len(first_row_cells)))\<close>
  when the table is returned, \<open>Inr None\<close> when the loop goes on to the next table.
\<close>

definition check_table :: "table \<Rightarrow> error + (nat \<times> nat) option" where
  "check_table t =
     (case query_tr t of
        Inl e \<Rightarrow> Inl e
      | Inr rs \<Rightarrow>
          if length rs \<le> 1 then Inr None
          else
            (case query_td_th (rs ! 0) of
               Inl e \<Rightarrow> Inl e
             | Inr first_row_cells \<Rightarrow>
                 if length first_row_cells < 3 then Inr None
                 else
                   (case scan_rows (take 2 (drop 1 rs)) of
                      Inl e \<Rightarrow> Inl e
                    | Inr True \<Rightarrow> Inr (Some (length rs, length first_row_cells))
                    | Inr False \<Rightarrow> Inr None)))"

fun find_from :: "nat \<Rightarrow> table list \<Rightarrow> (table \<times> nat \<times> nat \<times> nat) option" where
  "find_from i [] = None"
| "find_from i (t # ts) =
     (case check_table t of
        Inr (Some (n, m)) \<Rightarrow> Some (t, i, n, m)
      | _ \<Rightarrow> find_from (Suc i) ts)"

definition find_results_table :: "table list \<Rightarrow> (table \<times> nat \<times> nat \<times> nat) option" where
  "find_results_table tables = find_from 0 tables"

section \<open>Row-to-record mapping: \<open>scrape_results_table\<close>\<close>

record brand_record =
  row_number :: int
  instrument_number :: pystr
  date :: pystr
  doc_type :: pystr
  grantor :: pystr
  grantee :: pystr
  legal_description :: pystr
  raw_data :: "pystr list"

text \<open>The six named fields in the order of the cell indices they are taken from.\<close>

definition named_fields :: "brand_record \<Rightarrow> pystr list" where
  "named_fields r =
     [instrument_number r, date r, doc_type r, grantor r, grantee r, legal_description r]"

text \<open>The inner \<open>try\<close>: a cell whose text cannot be read contributes the empty string.\<close>

definition cell_text_of :: "cell \<Rightarrow> pystr" where
  "cell_text_of c =
     (case inner_text c of
        Inl e \<Rightarrow> []
      | Inr text \<Rightarrow> strip (replace text nbsp (str '' '')))"

text \<open>\<open>cell_texts[k] if len(cell_texts) > k else ""\<close>.\<close>

definition field_at :: "pystr list \<Rightarrow> nat \<Rightarrow> pystr" where
  "field_at cell_texts k = (if length cell_texts > k then cell_texts ! k else [])"

definition make_record :: "nat \<Rightarrow> pystr list \<Rightarrow> brand_record" where
  "make_record i cell_texts =
     \<lparr> row_number = int i + 1,
       instrument_number = field_at cell_texts 0,
       date = field_at cell_texts 1,
       doc_type = field_at cell_texts 2,
       grantor = field_at cell_texts 3,
       grantee = field_at cell_texts 4,
       legal_description = field_at cell_texts 5,
       raw_data = cell_texts \<rparr>"

text \<open>
  The body of the per-row \<open>try\<close>, for the row at index \<open>i\<close>: \<open>Inr (Some rec)\<close> when a
  record is appended, \<open>Inr None\<close> when the row has fewer than three \<open>td\<close> cells,
  \<open>Inl e\<close> when the row's query raises.
\<close>

definition parse_row :: "nat \<Rightarrow> row \<Rightarrow> error + brand_record option" where
  "parse_row i r =
     (case query_td r of
        Inl e \<Rightarrow> Inl e
      | Inr cs \<Rightarrow>
          if length cs \<ge> 3 then Inr (Some (make_record i (map cell_text_of cs)))
          else Inr None)"

text \<open>One turn of the loop: what the row at index \<open>i\<close> adds to \<open>data\<close>.\<close>

definition row_records :: "nat \<Rightarrow> row \<Rightarrow> brand_record list" where
  "row_records i r =
     (case parse_row i r of
        Inl e \<Rightarrow> []
      | Inr None \<Rightarrow> []
      | Inr (Some rec) \<Rightarrow> [rec])"

text \<open>\<open>for i in range(start_row, len(rows))\<close>.\<close>

definition parse_rows :: "nat \<Rightarrow> row list \<Rightarrow> brand_record list" where
  "parse_rows start_row rs = concat (map (\<lambda>i. row_records i (rs ! i)) [start_row..<length rs])"

definition header_keywords :: "pystr list" where
  "header_keywords = [str ''Instrument'', str ''Date'', str ''Doc Type'']"

text \<open>
  Header detection. Reading the first row's text may raise; that exception is outside
  the per-row \<open>try\<close>.
\<close>

definition start_row_of :: "row list \<Rightarrow> error + nat" where
  "start_row_of rs =
     (if rs = [] then Inr 0
      else
        (case row_text (rs ! 0) of
           Inl e \<Rightarrow> Inl e
         | Inr first_row_text \<Rightarrow>
             if first_row_text \<noteq> [] \<and> list_ex (\<lambda>header. contains header first_row_text) header_keywords
             then Inr 1
             else Inr 0))"

text \<open>Parsing the table that discovery returned.\<close>

definition parse_table :: "table \<Rightarrow> error + brand_record list" where
  "parse_table t =
     (case query_tr t of
        Inl e \<Rightarrow> Inl e
      | Inr rs \<Rightarrow>
          (case start_row_of rs of
             Inl e \<Rightarrow> Inl e
           | Inr start_row \<Rightarrow> Inr (parse_rows start_row rs)))"

text \<open>
  What the results page answers to \<open>wait_for_selector("table")\<close> and to
  \<open>query_selector_all("table")\<close>.
\<close>

record results_page =
  table_wait_error :: "error option"
  tables_query :: "error + table list"

text \<open>The body of the outer \<open>try\<close> of \<open>scrape_results_table\<close>.\<close>

definition scrape_body :: "results_page \<Rightarrow> error + brand_record list" where
  "scrape_body p =
     (case table_wait_error p of
        Some e \<Rightarrow> Inl e
      | None \<Rightarrow>
          (case tables_query p of
             Inl e \<Rightarrow> Inl e
           | Inr tables \<Rightarrow>
               (case find_results_table tables of
                  None \<Rightarrow> Inr []
                | Some (results_table, table_index, num_rows, num_cols) \<Rightarrow>
                    parse_table results_table)))"

text \<open>The outer \<open>except Exception\<close> returns the empty list.\<close>

definition scrape_results_table :: "results_page \<Rightarrow> error + brand_record list" where
  "scrape_results_table p =
     (case scrape_body p of
        Inl e \<Rightarrow> Inr []
      | Inr data \<Rightarrow> Inr data)"

section \<open>Actions on the browser and on the file system\<close>

text \<open>
  The calls that act on the page, spend a fixed delay or write a file are logged, in the
  order in which they are made; a call that raises is logged too. Queries (waiting for a
  selector, reading a checked state, counting matches, reading the URL or the table) only
  return what the page answers and are not logged. Printing is left out.
\<close>

datatype action =
    Goto pystr
  | Click pystr
  | Press pystr
  | WaitForTimeout nat
  | OpenFile pystr
  | WriteHeader "pystr list"
  | WriteRows "brand_record list"
  | WriteStr pystr
  | CloseBrowser

type_synonym 'a io = "(error + 'a) \<times> action list"

text \<open>Sequencing: an exception ends the sequence, the actions so far are kept.\<close>

definition bind_io :: "'a io \<Rightarrow> ('a \<Rightarrow> 'b io) \<Rightarrow> 'b io" where
  "bind_io m f =
     (case m of
        (Inl e, tr) \<Rightarrow> (Inl e, tr)
      | (Inr x, tr) \<Rightarrow> (case f x of (r, tr') \<Rightarrow> (r, tr @ tr')))"

text \<open>\<open>try: m except Exception as e: h e\<close>.\<close>

definition catch_io :: "'a io \<Rightarrow> (error \<Rightarrow> 'a io) \<Rightarrow> 'a io" where
  "catch_io m h =
     (case m of
        (Inl e, tr) \<Rightarrow> (case h e of (r, tr') \<Rightarrow> (r, tr @ tr'))
      | (Inr x, tr) \<Rightarrow> (Inr x, tr))"

text \<open>A logged call with the answer the environment gives, and a query.\<close>

definition call :: "action \<Rightarrow> error + 'a \<Rightarrow> 'a io" where
  "call a r = (r, [a])"

definition query :: "error + 'a \<Rightarrow> 'a io" where
  "query r = (r, [])"

definition return_io :: "'a \<Rightarrow> 'a io" where
  "return_io x = (Inr x, [])"

definition raise_io :: "error \<Rightarrow> 'a io" where
  "raise_io e = (Inl e, [])"

section \<open>Configuration\<close>

definition SEARCH_ENTRY_URL :: pystr where
  "SEARCH_ENTRY_URL = str ''https://ccweb.co.fort-bend.tx.us/RealEstate/SearchEntry.aspx''"

definition BRAND_CHECKBOX_ID :: pystr where
  "BRAND_CHECKBOX_ID = str ''#cphNoMargin_f_dclDocType_14''"

definition OUTPUT_CSV :: pystr where
  "OUTPUT_CSV = str ''fort_bend_brands.csv''"

definition OUTPUT_JSONL :: pystr where
  "OUTPUT_JSONL = str ''fort_bend_brands.jsonl''"

section \<open>The filter selector: \<open>select_brand_document_type\<close>\<close>

text \<open>
  What the search page answers: \<open>wait_for_selector\<close> raises or returns a handle
  (\<open>True\<close>) or \<open>None\<close> (\<open>False\<close>); the two readings of the checked state; the click;
  the settle delay.
\<close>

record checkbox_page =
  wait_checkbox :: "error + bool"
  checked_before :: "error + bool"
  click_checkbox :: "error + unit"
  settle_wait :: "error + unit"
  checked_after :: "error + bool"

text \<open>The handler prints and re-raises, so the function is the body of its \<open>try\<close>.\<close>

definition select_brand_document_type :: "checkbox_page \<Rightarrow> unit io" where
  "select_brand_document_type p =
     bind_io (query (wait_checkbox p)) (\<lambda>brand_checkbox.
       if \<not> brand_checkbox then raise_io (RuntimeError ''BRAND checkbox not found'')
       else
         bind_io (query (checked_before p)) (\<lambda>is_checked.
           if is_checked then return_io ()
           else
             bind_io (call (Click BRAND_CHECKBOX_ID) (click_checkbox p)) (\<lambda>_.
             bind_io (call (WaitForTimeout 2000) (settle_wait p)) (\<lambda>_.
             bind_io (query (checked_after p)) (\<lambda>_. return_io ())))))"

section \<open>The search submitter: \<open>click_search_button\<close>\<close>

record search_page =
  selector_count :: "pystr \<Rightarrow> error + nat"
  click_selector :: "pystr \<Rightarrow> error + unit"
  press_key :: "pystr \<Rightarrow> error + unit"

definition search_selectors :: "pystr list" where
  "search_selectors =
     [str ''input[type='submit'][value*='Search']'',
      str ''button:has-text('Search')'',
      str ''input[type='button'][value*='Search']'',
      str ''input[value='Search']'']"

fun try_selectors :: "search_page \<Rightarrow> pystr list \<Rightarrow> unit io" where
  "try_selectors p [] = call (Press (str ''Enter'')) (press_key p (str ''Enter''))"
| "try_selectors p (selector # selectors) =
     bind_io (query (selector_count p selector)) (\<lambda>n.
       if n > 0 then call (Click selector) (click_selector p selector)
       else try_selectors p selectors)"

definition click_search_button :: "search_page \<Rightarrow> unit io" where
  "click_search_button p = try_selectors p search_selectors"

section \<open>The results waiter: \<open>wait_for_search_results\<close>\<close>

text \<open>
  The two waits for the searching indicator, the two fixed delays, and the URL of the page
  at each of the three places where it is read.
\<close>

record waiting_page =
  indicator_appears :: "error + unit"
  indicator_hides :: "error + unit"
  load_wait :: "error + unit"
  url_first :: pystr
  extra_wait :: "error + unit"
  url_second :: pystr
  url_on_error :: pystr

definition on_results_page :: "pystr \<Rightarrow> bool" where
  "on_results_page current_url \<longleftrightarrow> contains (str ''SearchResults.aspx'') current_url"

definition wait_body :: "waiting_page \<Rightarrow> bool io" where
  "wait_body p =
     bind_io (query (indicator_appears p)) (\<lambda>_.
     bind_io (query (indicator_hides p)) (\<lambda>_.
     bind_io (call (WaitForTimeout 3000) (load_wait p)) (\<lambda>_.
       if on_results_page (url_first p) then return_io True
       else
         bind_io (call (WaitForTimeout 5000) (extra_wait p)) (\<lambda>_.
           if on_results_page (url_second p) then return_io True
           else return_io False))))"

definition wait_for_search_results :: "waiting_page \<Rightarrow> bool io" where
  "wait_for_search_results p =
     catch_io (wait_body p) (\<lambda>e. return_io (on_results_page (url_on_error p)))"

section \<open>The persister: \<open>save_results\<close>\<close>

text \<open>
  \<open>json.dumps\<close> of the standard library, as \<open>save_results\<close> calls it: with its
  defaults, so ASCII output (\<open>ensure_ascii\<close>), separators \<open>", "\<close> and \<open>": "\<close>,
  the keys in insertion order. A code point outside \<open>' '..'~'\<close>, a quote and a
  backslash are escaped as \<open>py_encode_basestring_ascii\<close> does, a code point above
  \<open>0xFFFF\<close> as a surrogate pair.
\<close>

definition hex_digit :: "nat \<Rightarrow> nat" where
  "hex_digit d = (if d < 10 then 48 + d else 87 + d)"

definition u_escape :: "nat \<Rightarrow> pystr" where
  "u_escape n =
     [92, 117, hex_digit (n div 4096 mod 16), hex_digit (n div 256 mod 16),
      hex_digit (n div 16 mod 16), hex_digit (n mod 16)]"

definition escape_char :: "nat \<Rightarrow> pystr" where
  "escape_char c =
     (if c = 34 then [92, 34]
      else if c = 92 then [92, 92]
      else if c = 10 then [92, 110]
      else if c = 13 then [92, 114]
      else if c = 9 then [92, 116]
      else if c = 8 then [92, 98]
      else if c = 12 then [92, 102]
      else if 32 \<le> c \<and> c \<le> 126 then [c]
      else if c < 65536 then u_escape c
      else u_escape (55296 + (c - 65536) div 1024 mod 1024) @
           u_escape (56320 + (c - 65536) mod 1024))"

definition encode_str :: "pystr \<Rightarrow> pystr" where
  "encode_str s = [34] @ concat (map escape_char s) @ [34]"

function digits :: "nat \<Rightarrow> pystr" where
  "digits n = (if n < 10 then [48 + n] else digits (n div 10) @ [48 + n mod 10])"
  by pat_completeness auto
termination
  by (relation "measure id") auto

definition encode_int :: "int \<Rightarrow> pystr" where
  "encode_int i = (if i < 0 then 45 # digits (nat (- i)) else digits (nat i))"

fun join :: "pystr \<Rightarrow> pystr list \<Rightarrow> pystr" where
  "join sep [] = []"
| "join sep [x] = x"
| "join sep (x # y # ys) = x @ sep @ join sep (y # ys)"

definition encode_list :: "pystr list \<Rightarrow> pystr" where
  "encode_list items = [91] @ join (str '', '') items @ [93]"

definition encode_dict :: "(pystr \<times> pystr) list \<Rightarrow> pystr" where
  "encode_dict items =
     [123] @ join (str '', '') (map (\<lambda>(k, v). encode_str k @ str '': '' @ v) items) @ [125]"

definition json_dumps :: "brand_record \<Rightarrow> pystr" where
  "json_dumps r =
     encode_dict
       [(str ''row_number'', encode_int (row_number r)),
        (str ''instrument_number'', encode_str (instrument_number r)),
        (str ''date'', encode_str (date r)),
        (str ''doc_type'', encode_str (doc_type r)),
        (str ''grantor'', encode_str (grantor r)),
        (str ''grantee'', encode_str (grantee r)),
        (str ''legal_description'', encode_str (legal_description r)),
        (str ''raw_data'', encode_list (map encode_str (raw_data r)))]"

text \<open>The keys of a record, in the order in which the extractor inserts them.\<close>

definition fieldnames :: "pystr list" where
  "fieldnames =
     [str ''row_number'', str ''instrument_number'', str ''date'', str ''doc_type'',
      str ''grantor'', str ''grantee'', str ''legal_description'', str ''raw_data'']"

text \<open>
  The file system answers each file operation with success or an exception. A block of
  writes stops at the first operation that raises.
\<close>

type_synonym file_system = "action \<Rightarrow> error + unit"

fun run_block :: "file_system \<Rightarrow> action list \<Rightarrow> unit io" where
  "run_block fs [] = return_io ()"
| "run_block fs (a # as) = bind_io (call a (fs a)) (\<lambda>_. run_block fs as)"

definition save_results :: "file_system \<Rightarrow> brand_record list \<Rightarrow> unit io" where
  "save_results fs data =
     (if data = [] then return_io ()
      else
        bind_io
          (catch_io (run_block fs [OpenFile OUTPUT_CSV, WriteHeader fieldnames, WriteRows data])
             (\<lambda>e. return_io ()))
          (\<lambda>_.
             catch_io
               (run_block fs
                  (OpenFile OUTPUT_JSONL # map (\<lambda>record. WriteStr (json_dumps record @ [10])) data))
               (\<lambda>e. return_io ())))"

section \<open>The workflow: \<open>main\<close>\<close>

record run_env =
  startup :: "error + unit"
  goto_page :: "error + unit"
  checkbox :: checkbox_page
  search :: search_page
  waiting :: waiting_page
  results :: results_page
  files :: file_system
  close_browser :: "error + unit"

text \<open>
  \<open>try: body finally: browser.close()\<close>: the browser is closed on both paths; an
  exception of the closing call replaces the outcome of the body.
\<close>

definition finally_io :: "'a io \<Rightarrow> unit io \<Rightarrow> 'a io" where
  "finally_io m c =
     (case m of (r, tr) \<Rightarrow>
        (case c of
           (Inl e, tr') \<Rightarrow> (Inl e, tr @ tr')
         | (Inr _, tr') \<Rightarrow> (r, tr @ tr')))"

text \<open>
  Launching the browser and opening the page come before the \<open>try\<close>. The handler of
  \<open>main\<close> prints and re-raises.
\<close>

definition main :: "run_env \<Rightarrow> unit io" where
  "main env =
     bind_io (query (startup env)) (\<lambda>_.
       finally_io
         (bind_io (call (Goto SEARCH_ENTRY_URL) (goto_page env)) (\<lambda>_.
          bind_io (select_brand_document_type (checkbox env)) (\<lambda>_.
          bind_io (click_search_button (search env)) (\<lambda>_.
          bind_io (wait_for_search_results (waiting env)) (\<lambda>_.
          bind_io (query (scrape_results_table (results env))) (\<lambda>data.
          save_results (files env) data))))))
         (call CloseBrowser (close_browser env)))"

section \<open>Reading a line back: \<open>json.loads\<close>\<close>

text \<open>
  The program writes the lines and never reads them; reading them back is
  \<open>json.loads\<close> of the same standard library, modelled here after its decoder
  (\<open>scanstring\<close>, \<open>JSONArray\<close>, \<open>JSONObject\<close> and the scanner of \<open>json.scanner\<close>).

  The values \<open>json.loads\<close> returns. A number with a fraction or an exponent is kept
  as its text, uninterpreted. An object is the list of its items in insertion order.
\<close>

datatype json =
    JNull
  | JBool bool
  | JInt int
  | JFloat pystr
  | JStr pystr
  | JList "json list"
  | JDict "(pystr \<times> json) list"

definition is_ws :: "nat \<Rightarrow> bool" where
  "is_ws c \<longleftrightarrow> c = 32 \<or> c = 9 \<or> c = 10 \<or> c = 13"

definition skip_ws :: "pystr \<Rightarrow> pystr" where
  "skip_ws s = dropWhile is_ws s"

definition hex_val :: "nat \<Rightarrow> nat option" where
  "hex_val c =
     (if 48 \<le> c \<and> c \<le> 57 then Some (c - 48)
      else if 97 \<le> c \<and> c \<le> 102 then Some (c - 87)
      else if 65 \<le> c \<and> c \<le> 70 then Some (c - 55)
      else None)"

text \<open>The four hexadecimal digits after \<open>\u\<close>.\<close>

definition decode_uXXXX :: "pystr \<Rightarrow> nat option" where
  "decode_uXXXX s =
     (case s of
        a # b # c # d # _ \<Rightarrow>
          (case (hex_val a, hex_val b, hex_val c, hex_val d) of
             (Some x, Some y, Some z, Some w) \<Rightarrow> Some (x * 4096 + y * 256 + z * 16 + w)
           | _ \<Rightarrow> None)
      | _ \<Rightarrow> None)"

text \<open>The one-letter escapes: \<open>" \ / b f n r t\<close>.\<close>

definition backslash :: "nat \<Rightarrow> nat option" where
  "backslash esc =
     (if esc = 34 then Some 34
      else if esc = 92 then Some 92
      else if esc = 47 then Some 47
      else if esc = 98 then Some 8
      else if esc = 102 then Some 12
      else if esc = 110 then Some 10
      else if esc = 114 then Some 13
      else if esc = 116 then Some 9
      else None)"

definition push :: "'a \<Rightarrow> ('a list \<times> 'b) option \<Rightarrow> ('a list \<times> 'b) option" where
  "push x r = map_option (\<lambda>(xs, rest). (x # xs, rest)) r"

text \<open>
  \<open>scanstring\<close> in strict mode, from the code point after the opening quote: the decoded
  string and the input after the closing quote. A \<open>\u\<close> escape of a high surrogate
  followed by a \<open>\u\<close> escape of a low surrogate is one code point.
\<close>

function scanstring :: "pystr \<Rightarrow> (pystr \<times> pystr) option" where
  "scanstring [] = None"
| "scanstring (c # s) =
     (if c = 34 then Some ([], s)
      else if c = 92 then
        (case s of
           [] \<Rightarrow> None
         | esc # s1 \<Rightarrow>
             if esc \<noteq> 117 then
               (case backslash esc of
                  None \<Rightarrow> None
                | Some char \<Rightarrow> push char (scanstring s1))
             else
               (case decode_uXXXX s1 of
                  None \<Rightarrow> None
                | Some uni \<Rightarrow>
                    if 55296 \<le> uni \<and> uni \<le> 56319 \<and> take 2 (drop 4 s1) = [92, 117] then
                      (case decode_uXXXX (drop 6 s1) of
                         None \<Rightarrow> None
                       | Some uni2 \<Rightarrow>
                           if 56320 \<le> uni2 \<and> uni2 \<le> 57343
                           then push (65536 + ((uni - 55296) * 1024 + (uni2 - 56320)))
                                  (scanstring (drop 10 s1))
                           else push uni (scanstring (drop 4 s1)))
                    else push uni (scanstring (drop 4 s1))))
      else if c < 32 then None
      else push c (scanstring s))"
  by pat_completeness auto
termination
  by (relation "measure length") auto

text \<open>Numbers: \<open>-?(0|[1-9][0-9]*)\<close>, then an optional fraction and an optional exponent.\<close>

definition is_digit :: "nat \<Rightarrow> bool" where
  "is_digit c \<longleftrightarrow> 48 \<le> c \<and> c \<le> 57"

definition digits_value :: "pystr \<Rightarrow> nat" where
  "digits_value ds = foldl (\<lambda>acc d. acc * 10 + (d - 48)) 0 ds"

definition parse_int :: "pystr \<Rightarrow> int" where
  "parse_int integer =
     (case integer of
        [] \<Rightarrow> 0
      | c # ds \<Rightarrow> if c = 45 then - int (digits_value ds) else int (digits_value integer))"

definition match_frac :: "pystr \<Rightarrow> pystr \<times> pystr" where
  "match_frac s =
     (case s of
        [] \<Rightarrow> ([], s)
      | c # r \<Rightarrow>
          if c = 46 \<and> takeWhile is_digit r \<noteq> []
          then (46 # takeWhile is_digit r, dropWhile is_digit r)
          else ([], s))"

definition match_exp :: "pystr \<Rightarrow> pystr \<times> pystr" where
  "match_exp s =
     (case s of
        [] \<Rightarrow> ([], s)
      | c # r \<Rightarrow>
          if c = 101 \<or> c = 69 then
            (let (sign, r1) =
               (case r of
                  [] \<Rightarrow> ([], r)
                | x # y \<Rightarrow> if x = 45 \<or> x = 43 then ([x], y) else ([], r))
             in if takeWhile is_digit r1 \<noteq> []
                then (c # sign @ takeWhile is_digit r1, dropWhile is_digit r1)
                else ([], s))
          else ([], s))"

definition finish_number :: "pystr \<Rightarrow> pystr \<Rightarrow> (json \<times> pystr) option" where
  "finish_number integer s =
     (let (frac, s1) = match_frac s; (exp, s2) = match_exp s1
      in if frac \<noteq> [] \<or> exp \<noteq> [] then Some (JFloat (integer @ frac @ exp), s2)
         else Some (JInt (parse_int integer), s2))"

definition match_number :: "pystr \<Rightarrow> (json \<times> pystr) option" where
  "match_number s =
     (let (sign, s1) =
        (case s of
           [] \<Rightarrow> ([], s)
         | c # r \<Rightarrow> if c = 45 then ([45], r) else ([], s))
      in case s1 of
           [] \<Rightarrow> None
         | d # r \<Rightarrow>
             if d = 48 then finish_number (sign @ [48]) r
             else if 49 \<le> d \<and> d \<le> 57
             then finish_number (sign @ d # takeWhile is_digit r) (dropWhile is_digit r)
             else None)"

text \<open>\<open>dict(pairs)\<close>: a later item with the same key replaces the value in place.\<close>

fun dict_set :: "(pystr \<times> json) list \<Rightarrow> pystr \<Rightarrow> json \<Rightarrow> (pystr \<times> json) list" where
  "dict_set [] k v = [(k, v)]"
| "dict_set ((k', v') # d) k v = (if k' = k then (k, v) # d else (k', v') # dict_set d k v)"

definition dict_of :: "(pystr \<times> json) list \<Rightarrow> (pystr \<times> json) list" where
  "dict_of pairs = foldl (\<lambda>d (k, v). dict_set d k v) [] pairs"

text \<open>
  The scanner, the loop of \<open>JSONArray\<close> (from the start of a value) and the loop of
  \<open>JSONObject\<close> (from the code point after the opening quote of a key). The first
  argument bounds the number of nested calls, as the interpreter's recursion limit does;
  running out of it is a failure.
\<close>

fun scan_once :: "nat \<Rightarrow> pystr \<Rightarrow> (json \<times> pystr) option"
  and array_loop :: "nat \<Rightarrow> pystr \<Rightarrow> (json list \<times> pystr) option"
  and object_loop :: "nat \<Rightarrow> pystr \<Rightarrow> ((pystr \<times> json) list \<times> pystr) option" where
  "scan_once 0 s = None"
| "scan_once (Suc n) s =
     (case s of
        [] \<Rightarrow> None
      | nextchar # rest \<Rightarrow>
          if nextchar = 34 then map_option (\<lambda>(t, r). (JStr t, r)) (scanstring rest)
          else if nextchar = 123 then
            (case skip_ws rest of
               [] \<Rightarrow> None
             | c # r \<Rightarrow>
                 if c = 125 then Some (JDict [], r)
                 else if c = 34
                 then map_option (\<lambda>(pairs, r'). (JDict (dict_of pairs), r')) (object_loop n r)
                 else None)
          else if nextchar = 91 then
            (case skip_ws rest of
               [] \<Rightarrow> None
             | c # r \<Rightarrow>
                 if c = 93 then Some (JList [], r)
                 else map_option (\<lambda>(values, r'). (JList values, r')) (array_loop n (c # r)))
          else if nextchar = 110 \<and> take 4 s = str ''null'' then Some (JNull, drop 4 s)
          else if nextchar = 116 \<and> take 4 s = str ''true'' then Some (JBool True, drop 4 s)
          else if nextchar = 102 \<and> take 5 s = str ''false'' then Some (JBool False, drop 5 s)
          else
            (case match_number s of
               Some res \<Rightarrow> Some res
             | None \<Rightarrow>
                 if nextchar = 78 \<and> take 3 s = str ''NaN'' then Some (JFloat (str ''NaN''), drop 3 s)
                 else if nextchar = 73 \<and> take 8 s = str ''Infinity''
                 then Some (JFloat (str ''Infinity''), drop 8 s)
                 else if nextchar = 45 \<and> take 9 s = str ''-Infinity''
                 then Some (JFloat (str ''-Infinity''), drop 9 s)
                 else None))"
| "array_loop 0 s = None"
| "array_loop (Suc n) s =
     (case scan_once n s of
        None \<Rightarrow> None
      | Some (value, s1) \<Rightarrow>
          (case skip_ws s1 of
             [] \<Rightarrow> None
           | c # s2 \<Rightarrow>
               if c = 93 then Some ([value], s2)
               else if c \<noteq> 44 then None
               else push value (array_loop n (skip_ws s2))))"
| "object_loop 0 s = None"
| "object_loop (Suc n) s =
     (case scanstring s of
        None \<Rightarrow> None
      | Some (key, s1) \<Rightarrow>
          (case skip_ws s1 of
             [] \<Rightarrow> None
           | c # s2 \<Rightarrow>
               if c \<noteq> 58 then None
               else
                 (case scan_once n (skip_ws s2) of
                    None \<Rightarrow> None
                  | Some (value, s3) \<Rightarrow>
                      (case skip_ws s3 of
                         [] \<Rightarrow> None
                       | c' # s4 \<Rightarrow>
                           if c' = 125 then Some ([(key, value)], s4)
                           else if c' \<noteq> 44 then None
                           else
                             (case skip_ws s4 of
                                [] \<Rightarrow> None
                              | q # s5 \<Rightarrow>
                                  if q \<noteq> 34 then None
                                  else push (key, value) (object_loop n s5))))))"

text \<open>\<open>json.loads\<close>: one value, with only whitespace around it.\<close>

definition json_loads :: "pystr \<Rightarrow> json option" where
  "json_loads s =
     (case scan_once (2 * length s + 2) (skip_ws s) of
        None \<Rightarrow> None
      | Some (obj, rest) \<Rightarrow> if skip_ws rest = [] then Some obj else None)"

text \<open>The value that a record is, as \<open>json.loads\<close> would return it.\<close>

definition record_value :: "brand_record \<Rightarrow> json" where
  "record_value r =
     JDict
       [(str ''row_number'', JInt (row_number r)),
        (str ''instrument_number'', JStr (instrument_number r)),
        (str ''date'', JStr (date r)),
        (str ''doc_type'', JStr (doc_type r)),
        (str ''grantor'', JStr (grantor r)),
        (str ''grantee'', JStr (grantee r)),
        (str ''legal_description'', JStr (legal_description r)),
        (str ''raw_data'', JList (map JStr (raw_data r)))]"

text \<open>
  A text is well formed when its code points are below \<open>0x110000\<close> and no high
  surrogate is immediately followed by a low surrogate.
\<close>

fun valid_text :: "pystr \<Rightarrow> bool" where
  "valid_text [] \<longleftrightarrow> True"
| "valid_text [c] \<longleftrightarrow> c < 1114112"
| "valid_text (c # d # s) \<longleftrightarrow>
     c < 1114112 \<and> \<not> (55296 \<le> c \<and> c \<le> 56319 \<and> 56320 \<le> d \<and> d \<le> 57343) \<and>
     valid_text (d # s)"

definition valid_record :: "brand_record \<Rightarrow> bool" where
  "valid_record r \<longleftrightarrow>
     valid_text (instrument_number r) \<and> valid_text (date r) \<and> valid_text (doc_type r) \<and>
     valid_text (grantor r) \<and> valid_text (grantee r) \<and> valid_text (legal_description r) \<and>
     list_all valid_text (raw_data r)"

text \<open>
  The texts the page delivers are well formed. The browser hands strings over as JSON,
  whose decoding joins every escaped surrogate pair, so a text read from the page never
  holds a high surrogate immediately followed by a low one.
\<close>

definition cell_ok :: "cell \<Rightarrow> bool" where
  "cell_ok c = (case inner_text c of Inl e \<Rightarrow> True | Inr t \<Rightarrow> valid_text t)"

definition page_texts_valid :: "results_page \<Rightarrow> bool" where
  "page_texts_valid p =
     (case tables_query p of
        Inl e \<Rightarrow> True
      | Inr tables \<Rightarrow> list_all (\<lambda>t. list_all (\<lambda>r. list_all cell_ok (cells r)) (rows t)) tables)"

text \<open>
  The code points after a \<open>\u\<close> escape do not begin the escape of a low surrogate.
\<close>

definition safe_after :: "pystr \<Rightarrow> bool" where
  "safe_after t \<longleftrightarrow>
     take 2 t \<noteq> [92, 117] \<or>
     (\<exists>u. decode_uXXXX (drop 2 t) = Some u \<and> \<not> (56320 \<le> u \<and> u \<le> 57343))"

text \<open>An encoded string without its opening quote.\<close>

definition key_tail :: "pystr \<Rightarrow> pystr" where
  "key_tail k = concat (map escape_char k) @ [34]"

text \<open>The strings passed to \<open>write\<close>, in order.\<close>

fun written_line :: "action \<Rightarrow> pystr list" where
  "written_line (WriteStr s) = [s]"
| "written_line _ = []"

definition lines_written :: "action list \<Rightarrow> pystr list" where
  "lines_written tr = concat (map written_line tr)"

section \<open>Example pages and environments\<close>

definition td :: "string \<Rightarrow> cell" where
  "td s = \<lparr>kind = Td, inner_text = Inr (str s)\<rparr>"

definition th :: "string \<Rightarrow> cell" where
  "th s = \<lparr>kind = Th, inner_text = Inr (str s)\<rparr>"

definition unreadable_td :: cell where
  "unreadable_td = \<lparr>kind = Td, inner_text = Inl PlaywrightError\<rparr>"

definition dom_row :: "cell list \<Rightarrow> string \<Rightarrow> row" where
  "dom_row cs s = \<lparr>cells = cs, query_error = None, row_text = Inr (str s)\<rparr>"

definition dom_table :: "row list \<Rightarrow> table" where
  "dom_table rs = \<lparr>rows = rs, tr_query_error = None\<rparr>"

definition dom_page :: "table list \<Rightarrow> results_page" where
  "dom_page ts = \<lparr>table_wait_error = None, tables_query = Inr ts\<rparr>"

definition header_row :: row where
  "header_row = dom_row [th ''Instrument'', th ''Date'', th ''Doc Type''] ''Instrument Date Doc Type''"

definition full_row :: row where
  "full_row = dom_row [td ''2021001'', td '' 01/02/2021 '', td ''BRAND&nbsp;'', td ''SMITH JOHN''] ''2021001 01/02/2021 BRAND SMITH JOHN''"

definition short_row :: row where
  "short_row = dom_row [td ''&nbsp;'', td ''Page 1''] ''Page 1''"

definition last_row :: row where
  "last_row = dom_row [td ''2021003'', td ''01/05/2021'', td ''BRAND''] ''2021003 01/05/2021 BRAND''"

definition layout_table :: table where
  "layout_table = dom_table [dom_row [td ''Home'', td ''Search''] ''Home Search'']"

definition four_row_table :: table where
  "four_row_table = dom_table [header_row, full_row, short_row, last_row]"

definition four_row_page :: results_page where
  "four_row_page = dom_page [layout_table, four_row_table]"

definition blank_row :: row where
  "blank_row = dom_row [td ''&nbsp;'', td ''  '', td ''''] '' ''"

definition blank_table :: table where
  "blank_table = dom_table [header_row, blank_row, blank_row, full_row]"

definition unreadable_row :: row where
  "unreadable_row = dom_row [td ''2021002'', unreadable_td, td ''BRAND''] ''2021002 BRAND''"

definition failing_row :: row where
  "failing_row =
     \<lparr>cells = [td ''2021002'', td ''01/03/2021'', td ''BRAND''],
      query_error = Some PlaywrightError,
      row_text = Inr (str ''2021002 01/03/2021 BRAND'')\<rparr>"

definition unreadable_page :: results_page where
  "unreadable_page = dom_page [dom_table [header_row, unreadable_row, last_row]]"

definition th_header_row :: row where
  "th_header_row = dom_row [th ''Number'', th ''Filed'', th ''Kind''] ''Number Filed Kind''"

definition th_header_table :: table where
  "th_header_table = dom_table [th_header_row, full_row, last_row]"

definition checked_page :: checkbox_page where
  "checked_page =
     \<lparr>wait_checkbox = Inr True, checked_before = Inr True, click_checkbox = Inr (),
      settle_wait = Inr (), checked_after = Inr True\<rparr>"

definition timeout_page :: waiting_page where
  "timeout_page =
     \<lparr>indicator_appears = Inl TimeoutError, indicator_hides = Inr (), load_wait = Inr (),
      url_first = SEARCH_ENTRY_URL, extra_wait = Inr (), url_second = SEARCH_ENTRY_URL,
      url_on_error = str ''https://ccweb.co.fort-bend.tx.us/RealEstate/SearchResults.aspx''\<rparr>"

definition example_record :: brand_record where
  "example_record = make_record 1 [str ''2021001'', str ''01/02/2021'', str ''BRAND'']"

definition csv_fails :: file_system where
  "csv_fails a = (if a = OpenFile OUTPUT_CSV then Inl OSError else Inr ())"

definition files_ok :: file_system where
  "files_ok a = Inr ()"

definition button_page :: search_page where
  "button_page =
     \<lparr>selector_count = (\<lambda>selector. Inr 1), click_selector = (\<lambda>selector. Inr ()),
      press_key = (\<lambda>key. Inr ())\<rparr>"

definition no_table_page :: results_page where
  "no_table_page = \<lparr>table_wait_error = Some TimeoutError, tables_query = Inr []\<rparr>"

definition missing_checkbox_page :: checkbox_page where
  "missing_checkbox_page =
     \<lparr>wait_checkbox = Inl TimeoutError, checked_before = Inr False, click_checkbox = Inr (),
      settle_wait = Inr (), checked_after = Inr True\<rparr>"

definition no_table_env :: run_env where
  "no_table_env =
     \<lparr>startup = Inr (), goto_page = Inr (), checkbox = checked_page, search = button_page,
      waiting = timeout_page, results = no_table_page, files = files_ok,
      close_browser = Inr ()\<rparr>"

definition missing_checkbox_env :: run_env where
  "missing_checkbox_env =
     \<lparr>startup = Inr (), goto_page = Inr (), checkbox = missing_checkbox_page,
      search = button_page, waiting = timeout_page, results = four_row_page, files = files_ok,
      close_browser = Inr ()\<rparr>"

definition late_failure_page :: results_page where
  "late_failure_page = dom_page [dom_table [header_row, full_row, last_row, failing_row, last_row]]"

definition hides_timeout_page :: waiting_page where
  "hides_timeout_page =
     \<lparr>indicator_appears = Inr (), indicator_hides = Inl TimeoutError, load_wait = Inr (),
      url_first = SEARCH_ENTRY_URL, extra_wait = Inr (), url_second = SEARCH_ENTRY_URL,
      url_on_error = SEARCH_ENTRY_URL\<rparr>"

definition slow_page :: waiting_page where
  "slow_page =
     \<lparr>indicator_appears = Inr (), indicator_hides = Inr (), load_wait = Inr (),
      url_first = SEARCH_ENTRY_URL, extra_wait = Inr (),
      url_second = str ''https://ccweb.co.fort-bend.tx.us/RealEstate/SearchResults.aspx'',
      url_on_error = SEARCH_ENTRY_URL\<rparr>"

definition jsonl_write_fails :: file_system where
  "jsonl_write_fails a = (case a of WriteStr s \<Rightarrow> Inl OSError | _ \<Rightarrow> Inr ())"

section \<open>Properties of the table extractor\<close>

lemmas example_defs =
  td_def th_def unreadable_td_def dom_row_def dom_table_def dom_page_def header_row_def
  full_row_def short_row_def last_row_def layout_table_def four_row_table_def four_row_page_def
  blank_row_def blank_table_def

lemmas query_defs = query_td_def query_td_th_def query_tr_def

lemmas str_defs = str_def strip_def is_space_def replace_def nbsp_def

lemma row_number_make_record: "row_number (make_record i ts) = int i + 1"
  by (simp add: make_record_def)

lemma row_records_cases:
  "row_records i r =
     (case query_td r of
        Inl e \<Rightarrow> []
      | Inr cs \<Rightarrow> if 3 \<le> length cs then [make_record i (map cell_text_of cs)] else [])"
  by (simp add: row_records_def parse_row_def split: sum.splits)

lemma row_records_row_number: "rec \<in> set (row_records i r) \<Longrightarrow> row_number rec = int i + 1"
  by (auto simp: row_records_cases row_number_make_record split: sum.splits if_splits)

lemma in_parse_rows:
  "rec \<in> set (parse_rows s rs) \<longleftrightarrow> (\<exists>i. s \<le> i \<and> i < length rs \<and> rec \<in> set (row_records i (rs ! i)))"
  by (auto simp: parse_rows_def)

lemma parse_rows_split:
  assumes "s \<le> j" and "j < length rs"
  shows "parse_rows s rs = parse_rows s (take j rs) @ row_records j (rs ! j) @ parse_rows (Suc j) rs"
proof -
  have "[s..<length rs] = [s..<j] @ [j..<length rs]"
    using assms by (metis le_Suc_ex less_imp_le_nat upt_add_eq_append)
  then have u: "[s..<length rs] = [s..<j] @ j # [Suc j..<length rs]"
    using assms by (simp add: upt_conv_Cons)
  have m: "map (\<lambda>i. row_records i (take j rs ! i)) [s..<j] = map (\<lambda>i. row_records i (rs ! i)) [s..<j]"
    by simp
  have "parse_rows s (take j rs) = concat (map (\<lambda>i. row_records i (take j rs ! i)) [s..<j])"
    using assms by (simp add: parse_rows_def min_def)
  then have t: "parse_rows s (take j rs) = concat (map (\<lambda>i. row_records i (rs ! i)) [s..<j])"
    by (simp only: m)
  have "parse_rows s rs = concat (map (\<lambda>i. row_records i (rs ! i)) ([s..<j] @ j # [Suc j..<length rs]))"
    unfolding parse_rows_def by (simp only: u [symmetric])
  also have "\<dots> = concat (map (\<lambda>i. row_records i (rs ! i)) [s..<j]) @ row_records j (rs ! j)
                 @ parse_rows (Suc j) rs"
    by (simp add: parse_rows_def)
  finally show ?thesis
    by (simp only: t)
qed

lemma field_at_map:
  "field_at (map f cs) k = (if k < length cs then f (cs ! k) else [])"
  by (simp add: field_at_def)

lemma named_fields_make_record:
  "named_fields (make_record i ts) = map (field_at ts) [0, 1, 2, 3, 4, 5]"
  by (simp add: named_fields_def make_record_def)

text \<open>
  Claim C1. A row with exactly \<open>N \<ge> 3\<close> \<open>td\<close> cells gives a record whose named
  field \<open>k\<close> (for \<open>k < min N 6\<close>) is the text of cell \<open>k\<close> with \<open>&nbsp;\<close>
  replaced by a space and then stripped (the empty string when the cell's text cannot be
  read), whose named fields at positions \<open>k \<ge> N\<close> are empty, and whose \<open>raw_data\<close>
  has length \<open>N\<close>.
\<close>

theorem row_mapping_positional:
  assumes "query_td r = Inr cs" and "3 \<le> length cs"
  shows "\<exists>rec. parse_row i r = Inr (Some rec) \<and>
           (\<forall>k<6. named_fields rec ! k =
              (if k < length cs
               then (case inner_text (cs ! k) of
                       Inr text \<Rightarrow> strip (replace text (str ''&nbsp;'') (str '' ''))
                     | Inl e \<Rightarrow> [])
               else [])) \<and>
           length (raw_data rec) = length cs"
proof -
  let ?rec = "make_record i (map cell_text_of cs)"
  have p: "parse_row i r = Inr (Some ?rec)"
    using assms by (simp add: parse_row_def)
  have f: "named_fields ?rec ! k =
              (if k < length cs
               then (case inner_text (cs ! k) of
                       Inr text \<Rightarrow> strip (replace text (str ''&nbsp;'') (str '' ''))
                     | Inl e \<Rightarrow> [])
               else [])" if "k < 6" for k
  proof -
    from that consider "k = 0" | "k = 1" | "k = 2" | "k = 3" | "k = 4" | "k = 5"
      by linarith
    then show ?thesis
      by cases (simp_all add: named_fields_make_record field_at_map cell_text_of_def nbsp_def
                  split: sum.splits)
  qed
  have l: "length (raw_data ?rec) = length cs"
    by (simp add: make_record_def)
  from p f l show ?thesis by blast
qed

theorem row_mapping_positional_witness:
  "\<exists>rec. parse_row 1 full_row = Inr (Some rec) \<and>
     named_fields rec ! 1 = str ''01/02/2021'' \<and> named_fields rec ! 2 = str ''BRAND'' \<and>
     named_fields rec ! 4 = [] \<and> length (raw_data rec) = 4"
proof -
  let ?cs = "[td ''2021001'', td '' 01/02/2021 '', td ''BRAND&nbsp;'', td ''SMITH JOHN'']"
  have h1: "query_td full_row = Inr ?cs"
    by (simp add: query_defs example_defs)
  have h2: "3 \<le> length ?cs"
    by simp
  from row_mapping_positional [OF h1 h2, of 1] obtain rec where
    p: "parse_row 1 full_row = Inr (Some rec)" and
    f: "\<forall>k<6. named_fields rec ! k =
          (if k < length ?cs
           then (case inner_text (?cs ! k) of
                   Inr text \<Rightarrow> strip (replace text (str ''&nbsp;'') (str '' ''))
                 | Inl e \<Rightarrow> [])
           else [])" and
    l: "length (raw_data rec) = length ?cs"
    by blast
  from f [rule_format, of 1] have "named_fields rec ! 1 = str ''01/02/2021''"
    by (simp add: td_def str_defs)
  moreover from f [rule_format, of 2] have "named_fields rec ! 2 = str ''BRAND''"
    by (simp add: td_def str_defs)
  moreover from f [rule_format, of 4] have "named_fields rec ! 4 = []"
    by simp
  ultimately show ?thesis
    using p l by auto
qed

lemma scan_cells_True:
  "scan_cells cs = Inr True \<Longrightarrow>
     \<exists>c\<in>set cs. \<exists>text. inner_text c = Inr text \<and> strip text \<noteq> [] \<and> strip text \<noteq> nbsp"
  by (induction cs) (auto split: sum.splits if_splits)

lemma scan_rows_True:
  "scan_rows rs = Inr True \<Longrightarrow>
     \<exists>r\<in>set rs. \<exists>cs. query_td r = Inr cs \<and>
        (\<exists>c\<in>set cs. \<exists>text. inner_text c = Inr text \<and> strip text \<noteq> [] \<and> strip text \<noteq> nbsp)"
proof (induction rs)
  case Nil
  then show ?case by simp
next
  case (Cons r rs)
  show ?case
  proof (cases "query_td r")
    case (Inl e)
    with Cons.prems show ?thesis by simp
  next
    case (Inr cs)
    show ?thesis
    proof (cases "scan_cells cs")
      case (Inl e)
      with Inr Cons.prems show ?thesis by simp
    next
      case scan: (Inr b)
      show ?thesis
      proof (cases b)
        case True
        with scan have "scan_cells cs = Inr True" by simp
        from scan_cells_True [OF this] Inr show ?thesis by auto
      next
        case False
        with scan Inr Cons.prems have "scan_rows rs = Inr True" by simp
        from Cons.IH [OF this] show ?thesis by auto
      qed
    qed
  qed
qed

lemma check_table_Some:
  assumes "check_table t = Inr (Some (n, m))"
  shows "\<exists>rs fc. query_tr t = Inr rs \<and> 1 < length rs \<and> n = length rs \<and>
           query_td_th (rs ! 0) = Inr fc \<and> 3 \<le> length fc \<and> m = length fc \<and>
           scan_rows (take 2 (drop 1 rs)) = Inr True"
  using assms
  by (auto simp: check_table_def split: sum.splits if_splits bool.splits)

lemma find_from_Some:
  "find_from k ts = Some (t, i, n, m) \<Longrightarrow>
     check_table t = Inr (Some (n, m)) \<and> k \<le> i \<and> i - k < length ts \<and> ts ! (i - k) = t"
proof (induction ts arbitrary: k)
  case Nil
  then show ?case by simp
next
  case (Cons a ts)
  show ?case
  proof (cases "check_table a = Inr (Some (n, m)) \<and> t = a \<and> i = k")
    case True
    then show ?thesis by simp
  next
    case False
    with Cons.prems have "find_from (Suc k) ts = Some (t, i, n, m)"
      by (auto split: sum.splits option.splits)
    from Cons.IH [OF this] show ?thesis
      by (auto simp: nth_Cons')
  qed
qed

text \<open>
  Claim C2. A table with at most one row, or with fewer than three cells in its first
  row, or whose first two data rows hold no \<open>td\<close> cell with stripped text that is
  non-empty and different from \<open>&nbsp;\<close>, is never the table that discovery returns.
\<close>

theorem discovery_rejects:
  assumes "query_tr t = Inr rs"
    and "length rs \<le> 1 \<or>
         (\<exists>fc. query_td_th (rs ! 0) = Inr fc \<and> length fc < 3) \<or>
         (\<forall>r\<in>set (take 2 (drop 1 rs)). \<forall>cs. query_td r = Inr cs \<longrightarrow>
            (\<forall>c\<in>set cs. \<forall>text. inner_text c = Inr text \<longrightarrow>
               strip text = [] \<or> strip text = str ''&nbsp;''))"
  shows "find_results_table tables \<noteq> Some (t, i, n, m)"
proof
  assume "find_results_table tables = Some (t, i, n, m)"
  then have "check_table t = Inr (Some (n, m))"
    using find_from_Some [of 0 tables t i n m] by (simp add: find_results_table_def)
  from check_table_Some [OF this] assms(1)
  obtain fc where len: "1 < length rs" and fc: "query_td_th (rs ! 0) = Inr fc" "3 \<le> length fc"
    and scan: "scan_rows (take 2 (drop 1 rs)) = Inr True"
    by auto
  from scan_rows_True [OF scan] obtain r cs c s where
    "r \<in> set (take 2 (drop 1 rs))" "query_td r = Inr cs" "c \<in> set cs"
    "inner_text c = Inr s" "strip s \<noteq> []" "strip s \<noteq> str ''&nbsp;''"
    by (auto simp: nbsp_def)
  with assms(2) len fc show False
    by auto
qed

theorem discovery_rejects_witness:
  "find_results_table [layout_table, blank_table, four_row_table] \<noteq> Some (blank_table, 1, 4, 3)"
proof -
  have h1: "query_tr blank_table = Inr [header_row, blank_row, blank_row, full_row]"
    by (simp add: query_defs blank_table_def dom_table_def)
  have c: "\<forall>c\<in>set cs. \<forall>text. inner_text c = Inr text \<longrightarrow>
               strip text = [] \<or> strip text = str ''&nbsp;''" if "query_td blank_row = Inr cs" for cs
  proof -
    have s1: "strip (str ''&nbsp;'') = str ''&nbsp;''" "strip (str ''  '') = []" "strip (str []) = []"
      by (simp_all add: str_def strip_def is_space_def)
    have "query_td blank_row = Inr [td ''&nbsp;'', td ''  '', td []]"
      by (simp add: query_defs blank_row_def dom_row_def td_def)
    with that have "cs = [td ''&nbsp;'', td ''  '', td []]"
      by simp
    then show ?thesis
      by (simp add: td_def s1)
  qed
  have h2: "length [header_row, blank_row, blank_row, full_row] \<le> 1 \<or>
         (\<exists>fc. query_td_th ([header_row, blank_row, blank_row, full_row] ! 0) = Inr fc \<and> length fc < 3) \<or>
         (\<forall>r\<in>set (take 2 (drop 1 [header_row, blank_row, blank_row, full_row])). \<forall>cs. query_td r = Inr cs \<longrightarrow>
            (\<forall>c\<in>set cs. \<forall>text. inner_text c = Inr text \<longrightarrow>
               strip text = [] \<or> strip text = str ''&nbsp;''))"
    using c by simp
  from discovery_rejects [OF h1 h2] show ?thesis .
qed

lemma upt_1_4: "[1..<4] = [1, 2, 3::nat]"
  by (simp add: upt_rec)

lemma parse_rows_four:
  "parse_rows 1 [h, d1, d2, d3] = row_records 1 d1 @ row_records 2 d2 @ row_records 3 d3"
proof -
  have "length [h, d1, d2, d3] = 4" by simp
  then have "parse_rows 1 [h, d1, d2, d3] =
      concat (map (\<lambda>i. row_records i ([h, d1, d2, d3] ! i)) [1, 2, 3])"
    unfolding parse_rows_def by (simp only: upt_1_4)
  moreover have "[h, d1, d2, d3] ! 1 = d1" "[h, d1, d2, d3] ! 2 = d2" "[h, d1, d2, d3] ! 3 = d3"
    by simp_all
  ultimately show ?thesis
    by (simp only: list.map concat.simps append_Nil2)
qed

lemma start_row_of_header:
  assumes "rs \<noteq> []" and "row_text (rs ! 0) = Inr s" and "s \<noteq> []"
    and "\<exists>k\<in>set header_keywords. contains k s"
  shows "start_row_of rs = Inr 1"
  using assms by (simp add: start_row_of_def list_ex_iff)

lemma short_row_not_in_output:
  assumes "i < length rs" and "query_td (rs ! i) = Inr cs" and "length cs < 3"
  shows "\<forall>rec\<in>set (parse_rows s rs). row_number rec \<noteq> int i + 1"
proof
  fix rec
  assume "rec \<in> set (parse_rows s rs)"
  then obtain j where j: "rec \<in> set (row_records j (rs ! j))"
    by (auto simp: in_parse_rows)
  then have rn: "row_number rec = int j + 1"
    by (rule row_records_row_number)
  show "row_number rec \<noteq> int i + 1"
  proof
    assume "row_number rec = int i + 1"
    with rn have "j = i" by simp
    with j assms show False
      by (simp add: row_records_cases)
  qed
qed

lemma parse_table_Inr:
  assumes "query_tr t = Inr rs" and "parse_table t = Inr data"
  shows "\<exists>s. start_row_of rs = Inr s \<and> data = parse_rows s rs"
  using assms by (auto simp: parse_table_def split: sum.splits)

text \<open>
  Claim C3. When the results table has four rows, the first a detected header, the second
  data row with two \<open>td\<close> cells and the other two data rows with at least three,
  extraction returns exactly two records, numbered 2 and 4. In general a row with fewer
  than three \<open>td\<close> cells adds no record, and no record of the output carries its
  number.
\<close>

theorem short_rows_are_dropped:
  "(table_wait_error p = None \<and> tables_query p = Inr tables \<and>
    find_results_table tables = Some (t, ti, nr, nc) \<and>
    query_tr t = Inr [h, d1, d2, d3] \<and>
    row_text h = Inr first_row_text \<and> first_row_text \<noteq> [] \<and>
    (\<exists>k\<in>set header_keywords. contains k first_row_text) \<and>
    query_td d1 = Inr c1 \<and> 3 \<le> length c1 \<and>
    query_td d2 = Inr c2 \<and> length c2 = 2 \<and>
    query_td d3 = Inr c3 \<and> 3 \<le> length c3
    \<longrightarrow> (\<exists>r1 r2. scrape_results_table p = Inr [r1, r2] \<and> row_number r1 = 2 \<and> row_number r2 = 4))
   \<and>
   (query_tr t' = Inr rs \<and> i < length rs \<and> query_td (rs ! i) = Inr cs \<and> length cs < 3 \<and>
    parse_table t' = Inr data
    \<longrightarrow> row_records i (rs ! i) = [] \<and> (\<forall>rec\<in>set data. row_number rec \<noteq> int i + 1))"
proof (rule conjI; rule impI)
  assume a: "table_wait_error p = None \<and> tables_query p = Inr tables \<and>
    find_results_table tables = Some (t, ti, nr, nc) \<and>
    query_tr t = Inr [h, d1, d2, d3] \<and>
    row_text h = Inr first_row_text \<and> first_row_text \<noteq> [] \<and>
    (\<exists>k\<in>set header_keywords. contains k first_row_text) \<and>
    query_td d1 = Inr c1 \<and> 3 \<le> length c1 \<and>
    query_td d2 = Inr c2 \<and> length c2 = 2 \<and>
    query_td d3 = Inr c3 \<and> 3 \<le> length c3"
  have st: "start_row_of [h, d1, d2, d3] = Inr 1"
    using a start_row_of_header [of "[h, d1, d2, d3]" first_row_text] by simp
  from a have q: "query_tr t = Inr [h, d1, d2, d3]" by simp
  have pt: "parse_table t = Inr (row_records 1 d1 @ row_records 2 d2 @ row_records 3 d3)"
    unfolding parse_table_def q by (simp only: st parse_rows_four sum.case)
  have r1: "row_records 1 d1 = [make_record 1 (map cell_text_of c1)]"
    using a by (simp add: row_records_cases)
  have r2: "row_records 2 d2 = []"
    using a by (simp add: row_records_cases)
  have r3: "row_records 3 d3 = [make_record 3 (map cell_text_of c3)]"
    using a by (simp add: row_records_cases)
  have "scrape_body p = parse_table t"
    using a by (simp add: scrape_body_def)
  then have "scrape_results_table p =
      Inr [make_record 1 (map cell_text_of c1), make_record 3 (map cell_text_of c3)]"
    unfolding scrape_results_table_def by (simp only: pt r1 r2 r3 sum.case append.simps)
  then show "\<exists>r1 r2. scrape_results_table p = Inr [r1, r2] \<and> row_number r1 = 2 \<and> row_number r2 = 4"
    by (simp add: row_number_make_record)
next
  assume b: "query_tr t' = Inr rs \<and> i < length rs \<and> query_td (rs ! i) = Inr cs \<and> length cs < 3 \<and>
    parse_table t' = Inr data"
  then obtain s where "data = parse_rows s rs"
    using parse_table_Inr [of t' rs data] by auto
  then show "row_records i (rs ! i) = [] \<and> (\<forall>rec\<in>set data. row_number rec \<noteq> int i + 1)"
    using b short_row_not_in_output [of i rs cs s] by (simp add: row_records_cases)
qed

theorem short_rows_are_dropped_witness:
  "\<exists>r1 r2. scrape_results_table four_row_page = Inr [r1, r2] \<and> row_number r1 = 2 \<and> row_number r2 = 4"
proof -
  have f: "find_results_table [layout_table, four_row_table] = Some (four_row_table, 1, 4, 3)"
    by (simp add: find_results_table_def check_table_def query_defs example_defs str_defs)
  have k: "\<exists>k\<in>set header_keywords. contains k (str ''Instrument Date Doc Type'')"
    by (simp add: header_keywords_def str_def)
  have "table_wait_error four_row_page = None \<and>
    tables_query four_row_page = Inr [layout_table, four_row_table] \<and>
    find_results_table [layout_table, four_row_table] = Some (four_row_table, 1, 4, 3) \<and>
    query_tr four_row_table = Inr [header_row, full_row, short_row, last_row] \<and>
    row_text header_row = Inr (str ''Instrument Date Doc Type'') \<and>
    str ''Instrument Date Doc Type'' \<noteq> [] \<and>
    (\<exists>k\<in>set header_keywords. contains k (str ''Instrument Date Doc Type'')) \<and>
    query_td full_row = Inr [td ''2021001'', td '' 01/02/2021 '', td ''BRAND&nbsp;'', td ''SMITH JOHN''] \<and>
    3 \<le> length [td ''2021001'', td '' 01/02/2021 '', td ''BRAND&nbsp;'', td ''SMITH JOHN''] \<and>
    query_td short_row = Inr [td ''&nbsp;'', td ''Page 1''] \<and>
    length [td ''&nbsp;'', td ''Page 1''] = 2 \<and>
    query_td last_row = Inr [td ''2021003'', td ''01/05/2021'', td ''BRAND''] \<and>
    3 \<le> length [td ''2021003'', td ''01/05/2021'', td ''BRAND'']"
    using f k by (simp add: query_defs four_row_page_def dom_page_def four_row_table_def dom_table_def
        header_row_def full_row_def short_row_def last_row_def dom_row_def td_def th_def str_def)
  with short_rows_are_dropped [THEN conjunct1] show ?thesis
    by blast
qed

lemma no_record_for_row:
  assumes "row_records i (rs ! i) = []"
  shows "\<forall>rec\<in>set (parse_rows s rs). row_number rec \<noteq> int i + 1"
proof
  fix rec
  assume "rec \<in> set (parse_rows s rs)"
  then obtain j where j: "rec \<in> set (row_records j (rs ! j))"
    by (auto simp: in_parse_rows)
  then have rn: "row_number rec = int j + 1"
    by (rule row_records_row_number)
  show "row_number rec \<noteq> int i + 1"
  proof
    assume "row_number rec = int i + 1"
    with rn have "j = i" by simp
    with j assms show False by simp
  qed
qed

text \<open>
  Claim C4, as stated: a row with a cell whose text cannot be read is skipped. It is not:
  on the page below the second row has an unreadable cell and still gives a record, with
  the empty string in that cell's place.
\<close>

theorem unreadable_cell_keeps_row:
  "inner_text (cells unreadable_row ! 1) = Inl PlaywrightError \<and>
   scrape_results_table unreadable_page = Inr
     [\<lparr>row_number = 2, instrument_number = str ''2021002'', date = [], doc_type = str ''BRAND'',
       grantor = [], grantee = [], legal_description = [],
       raw_data = [str ''2021002'', [], str ''BRAND'']\<rparr>,
      \<lparr>row_number = 3, instrument_number = str ''2021003'', date = str ''01/05/2021'',
       doc_type = str ''BRAND'', grantor = [], grantee = [], legal_description = [],
       raw_data = [str ''2021003'', str ''01/05/2021'', str ''BRAND'']\<rparr>]"
proof -
  let ?t = "dom_table [header_row, unreadable_row, last_row]"
  have f: "find_results_table [?t] = Some (?t, 0, 3, 3)"
    by (simp add: find_results_table_def check_table_def query_defs example_defs unreadable_row_def str_defs)
  have st: "start_row_of [header_row, unreadable_row, last_row] = Inr 1"
    by (simp add: start_row_of_def header_keywords_def header_row_def dom_row_def str_def)
  have u: "[1..<3] = [1, 2::nat]"
    by (simp add: upt_rec)
  have pr: "parse_rows 1 [header_row, unreadable_row, last_row] =
      row_records 1 unreadable_row @ row_records 2 last_row"
  proof -
    have "length [header_row, unreadable_row, last_row] = 3" by simp
    then have "parse_rows 1 [header_row, unreadable_row, last_row] =
        concat (map (\<lambda>i. row_records i ([header_row, unreadable_row, last_row] ! i)) [1, 2])"
      unfolding parse_rows_def by (simp only: u)
    moreover have "[header_row, unreadable_row, last_row] ! 1 = unreadable_row"
      "[header_row, unreadable_row, last_row] ! 2 = last_row"
      by simp_all
    ultimately show ?thesis
      by (simp only: list.map concat.simps append_Nil2)
  qed
  have r1: "row_records 1 unreadable_row =
     [\<lparr>row_number = 2, instrument_number = str ''2021002'', date = [], doc_type = str ''BRAND'',
       grantor = [], grantee = [], legal_description = [],
       raw_data = [str ''2021002'', [], str ''BRAND'']\<rparr>]"
    by (simp add: row_records_cases query_defs unreadable_row_def dom_row_def td_def unreadable_td_def
        make_record_def field_at_def cell_text_of_def str_defs)
  have r2: "row_records 2 last_row =
     [\<lparr>row_number = 3, instrument_number = str ''2021003'', date = str ''01/05/2021'',
       doc_type = str ''BRAND'', grantor = [], grantee = [], legal_description = [],
       raw_data = [str ''2021003'', str ''01/05/2021'', str ''BRAND'']\<rparr>]"
    by (simp add: row_records_cases query_defs last_row_def dom_row_def td_def
        make_record_def field_at_def cell_text_of_def str_defs)
  have pt: "parse_table ?t = Inr (row_records 1 unreadable_row @ row_records 2 last_row)"
  proof -
    have q: "query_tr ?t = Inr [header_row, unreadable_row, last_row]"
      by (simp add: query_tr_def dom_table_def)
    show ?thesis
      unfolding parse_table_def q by (simp only: st pr sum.case)
  qed
  have "scrape_body unreadable_page = parse_table ?t"
    by (simp add: scrape_body_def unreadable_page_def dom_page_def f)
  then have "scrape_results_table unreadable_page =
      Inr (row_records 1 unreadable_row @ row_records 2 last_row)"
    by (simp add: scrape_results_table_def pt)
  moreover have "inner_text (cells unreadable_row ! 1) = Inl PlaywrightError"
    by (simp add: unreadable_row_def dom_row_def unreadable_td_def)
  ultimately show ?thesis
    by (simp only: r1 r2 append.simps simp_thms)
qed

lemma parse_rows_cases:
  "parse_rows s rs =
     concat (map (\<lambda>i. case query_td (rs ! i) of
                         Inl e \<Rightarrow> []
                       | Inr cs \<Rightarrow>
                           if 3 \<le> length cs then [make_record i (map cell_text_of cs)] else [])
               [s..<length rs])"
  by (simp add: parse_rows_def row_records_cases)

lemma upt_split: "s \<le> j \<Longrightarrow> j < n \<Longrightarrow> [s..<n] = [s..<j] @ j # [Suc j..<n]"
proof -
  assume a: "s \<le> j" "j < n"
  then have "[s..<n] = [s..<j] @ [j..<n]"
    by (metis le_Suc_ex less_imp_le_nat upt_add_eq_append)
  with a show ?thesis
    by (simp add: upt_conv_Cons)
qed

lemma scrape_selected_table:
  assumes "table_wait_error p = None" and "tables_query p = Inr tables"
    and "find_results_table tables = Some (t, ti, nr, nc)" and "query_tr t = Inr rs"
    and "row_text (rs ! 0) = Inr first_row_text" and "rs \<noteq> []"
  shows "scrape_results_table p =
     Inr (parse_rows
            (if first_row_text \<noteq> [] \<and> (\<exists>k\<in>set header_keywords. contains k first_row_text)
             then 1 else 0) rs)"
proof -
  have st: "start_row_of rs =
      Inr (if first_row_text \<noteq> [] \<and> (\<exists>k\<in>set header_keywords. contains k first_row_text)
           then 1 else 0)"
    using assms(5,6) by (simp add: start_row_of_def list_ex_iff)
  have "scrape_body p = parse_table t"
    using assms(1-3) by (simp add: scrape_body_def)
  then show ?thesis
    by (simp add: scrape_results_table_def parse_table_def assms(4) st)
qed

text \<open>
  Claim C4, amended. Let discovery have selected the results table and let the text of
  its first row be readable. When the cell query of a data row raises, the exception is
  caught and the row is skipped: the extractor returns the records of the rows before it
  followed by the records of the rows after it, every row treated on its own. A cell
  whose text cannot be read does not skip its row: the extractor returns the records of
  the rows before it, the record of this row, numbered by the row's position and with
  the empty string at that cell's position of \<open>raw_data\<close>, and the records of the
  rows after it.
\<close>

theorem row_failures_are_contained:
  "table_wait_error p = None \<and> tables_query p = Inr tables \<and>
   find_results_table tables = Some (t, ti, nr, nc) \<and> query_tr t = Inr rs \<and>
   row_text (rs ! 0) = Inr first_row_text \<and>
   s = (if first_row_text \<noteq> [] \<and> (\<exists>k\<in>set header_keywords. contains k first_row_text)
        then 1 else 0) \<and>
   s \<le> j \<and> j < length rs
   \<longrightarrow>
   (let out = (\<lambda>is. concat (map (\<lambda>i. case query_td (rs ! i) of
                                         Inl e \<Rightarrow> []
                                       | Inr cs \<Rightarrow>
                                           if 3 \<le> length cs
                                           then [make_record i (map cell_text_of cs)]
                                           else []) is))
    in (query_td (rs ! j) = Inl e \<longrightarrow>
          scrape_results_table p = Inr (out [s..<j] @ out [Suc j..<length rs])) \<and>
       (query_td (rs ! j) = Inr cs \<and> 3 \<le> length cs \<and> k < length cs \<and>
        inner_text (cs ! k) = Inl e' \<longrightarrow>
          scrape_results_table p =
            Inr (out [s..<j] @ [make_record j (map cell_text_of cs)] @ out [Suc j..<length rs]) \<and>
          row_number (make_record j (map cell_text_of cs)) = int j + 1 \<and>
          raw_data (make_record j (map cell_text_of cs)) ! k = [] \<and>
          length (raw_data (make_record j (map cell_text_of cs))) = length cs))"
proof
  assume h: "table_wait_error p = None \<and> tables_query p = Inr tables \<and>
   find_results_table tables = Some (t, ti, nr, nc) \<and> query_tr t = Inr rs \<and>
   row_text (rs ! 0) = Inr first_row_text \<and>
   s = (if first_row_text \<noteq> [] \<and> (\<exists>k\<in>set header_keywords. contains k first_row_text)
        then 1 else 0) \<and>
   s \<le> j \<and> j < length rs"
  define f where "f = (\<lambda>i. case query_td (rs ! i) of
                                         Inl e \<Rightarrow> []
                                       | Inr cs \<Rightarrow>
                                           if 3 \<le> length cs
                                           then [make_record i (map cell_text_of cs)]
                                           else [])"
  from h have ne: "rs \<noteq> []" by auto
  from h have sj: "s \<le> j" "j < length rs" by simp_all
  have "scrape_results_table p = Inr (parse_rows s rs)"
    using scrape_selected_table [of p tables t ti nr nc rs first_row_text] h ne by simp
  then have "scrape_results_table p = Inr (concat (map f [s..<length rs]))"
    unfolding f_def by (simp only: parse_rows_cases)
  then have all: "scrape_results_table p =
      Inr (concat (map f [s..<j]) @ f j @ concat (map f [Suc j..<length rs]))"
    by (simp add: upt_split [OF sj])
  have a: "query_td (rs ! j) = Inl e \<longrightarrow>
      scrape_results_table p = Inr (concat (map f [s..<j]) @ concat (map f [Suc j..<length rs]))"
  proof
    assume "query_td (rs ! j) = Inl e"
    then have "f j = []" by (simp add: f_def)
    with all show "scrape_results_table p =
        Inr (concat (map f [s..<j]) @ concat (map f [Suc j..<length rs]))"
      by simp
  qed
  have b: "query_td (rs ! j) = Inr cs \<and> 3 \<le> length cs \<and> k < length cs \<and>
        inner_text (cs ! k) = Inl e' \<longrightarrow>
          scrape_results_table p =
            Inr (concat (map f [s..<j]) @ [make_record j (map cell_text_of cs)] @
                 concat (map f [Suc j..<length rs])) \<and>
          row_number (make_record j (map cell_text_of cs)) = int j + 1 \<and>
          raw_data (make_record j (map cell_text_of cs)) ! k = [] \<and>
          length (raw_data (make_record j (map cell_text_of cs))) = length cs"
  proof
    assume c: "query_td (rs ! j) = Inr cs \<and> 3 \<le> length cs \<and> k < length cs \<and>
        inner_text (cs ! k) = Inl e'"
    then have "f j = [make_record j (map cell_text_of cs)]" by (simp add: f_def)
    with all have "scrape_results_table p =
            Inr (concat (map f [s..<j]) @ [make_record j (map cell_text_of cs)] @
                 concat (map f [Suc j..<length rs]))"
      by simp
    moreover from c have "raw_data (make_record j (map cell_text_of cs)) ! k = []"
      by (simp add: make_record_def cell_text_of_def)
    moreover have "row_number (make_record j (map cell_text_of cs)) = int j + 1"
      "length (raw_data (make_record j (map cell_text_of cs))) = length cs"
      by (simp_all add: make_record_def)
    ultimately show "scrape_results_table p =
            Inr (concat (map f [s..<j]) @ [make_record j (map cell_text_of cs)] @
                 concat (map f [Suc j..<length rs])) \<and>
          row_number (make_record j (map cell_text_of cs)) = int j + 1 \<and>
          raw_data (make_record j (map cell_text_of cs)) ! k = [] \<and>
          length (raw_data (make_record j (map cell_text_of cs))) = length cs"
      by simp
  qed
  from a b show "let out = (\<lambda>is. concat (map (\<lambda>i. case query_td (rs ! i) of
                                         Inl e \<Rightarrow> []
                                       | Inr cs \<Rightarrow>
                                           if 3 \<le> length cs
                                           then [make_record i (map cell_text_of cs)]
                                           else []) is))
    in (query_td (rs ! j) = Inl e \<longrightarrow>
          scrape_results_table p = Inr (out [s..<j] @ out [Suc j..<length rs])) \<and>
       (query_td (rs ! j) = Inr cs \<and> 3 \<le> length cs \<and> k < length cs \<and>
        inner_text (cs ! k) = Inl e' \<longrightarrow>
          scrape_results_table p =
            Inr (out [s..<j] @ [make_record j (map cell_text_of cs)] @ out [Suc j..<length rs]) \<and>
          row_number (make_record j (map cell_text_of cs)) = int j + 1 \<and>
          raw_data (make_record j (map cell_text_of cs)) ! k = [] \<and>
          length (raw_data (make_record j (map cell_text_of cs))) = length cs)"
    unfolding Let_def f_def by blast
qed


theorem row_failures_are_contained_witness:
  "(\<exists>data. scrape_results_table late_failure_page = Inr data \<and>
           map row_number data = [2, 3, 5]) \<and>
   (\<exists>data. scrape_results_table unreadable_page = Inr data \<and>
           map row_number data = [2, 3] \<and> raw_data (data ! 0) ! 1 = [])"
proof -
  let ?rs = "[header_row, full_row, last_row, failing_row, last_row]"
  let ?us = "[header_row, unreadable_row, last_row]"
  let ?txt = "str ''Instrument Date Doc Type''"
  have kw: "?txt \<noteq> [] \<and> (\<exists>k\<in>set header_keywords. contains k ?txt)"
    by (simp add: header_keywords_def str_def)
  have q_full: "query_td full_row =
      Inr [td ''2021001'', td '' 01/02/2021 '', td ''BRAND&nbsp;'', td ''SMITH JOHN'']"
    by (simp add: query_td_def full_row_def dom_row_def td_def)
  have q_last: "query_td last_row = Inr [td ''2021003'', td ''01/05/2021'', td ''BRAND'']"
    by (simp add: query_td_def last_row_def dom_row_def td_def)
  have q_fail: "query_td failing_row = Inl PlaywrightError"
    by (simp add: query_td_def failing_row_def)
  have q_unread: "query_td unreadable_row = Inr [td ''2021002'', unreadable_td, td ''BRAND'']"
    by (simp add: query_td_def unreadable_row_def dom_row_def td_def unreadable_td_def)
  have f1: "find_results_table [dom_table ?rs] = Some (dom_table ?rs, 0, 5, 3)"
    by (simp add: find_results_table_def check_table_def query_defs example_defs str_defs)
  have f2: "find_results_table [dom_table ?us] = Some (dom_table ?us, 0, 3, 3)"
    by (simp add: find_results_table_def check_table_def query_defs example_defs
        unreadable_row_def str_defs)
  have u: "[1..<3] = [1, 2::nat]" "[Suc 3..<5] = [4::nat]" "[1..<1] = ([]::nat list)"
    "[Suc 1..<3] = [2::nat]"
    by (simp_all add: upt_rec)
  have h1: "table_wait_error late_failure_page = None \<and>
      tables_query late_failure_page = Inr [dom_table ?rs] \<and>
      find_results_table [dom_table ?rs] = Some (dom_table ?rs, 0, 5, 3) \<and>
      query_tr (dom_table ?rs) = Inr ?rs \<and>
      row_text (?rs ! 0) = Inr ?txt \<and>
      1 = (if ?txt \<noteq> [] \<and> (\<exists>k\<in>set header_keywords. contains k ?txt) then 1 else 0) \<and>
      (1::nat) \<le> 3 \<and> 3 < length ?rs"
    using kw f1 by (simp add: late_failure_page_def dom_page_def dom_table_def query_tr_def
        header_row_def dom_row_def)
  have h2: "table_wait_error unreadable_page = None \<and>
      tables_query unreadable_page = Inr [dom_table ?us] \<and>
      find_results_table [dom_table ?us] = Some (dom_table ?us, 0, 3, 3) \<and>
      query_tr (dom_table ?us) = Inr ?us \<and>
      row_text (?us ! 0) = Inr ?txt \<and>
      1 = (if ?txt \<noteq> [] \<and> (\<exists>k\<in>set header_keywords. contains k ?txt) then 1 else 0) \<and>
      (1::nat) \<le> 1 \<and> 1 < length ?us"
    using kw f2 by (simp add: unreadable_page_def dom_page_def dom_table_def query_tr_def
        header_row_def dom_row_def)
  have a: "query_td (?rs ! 3) = Inl PlaywrightError"
    by (simp add: q_fail)
  have b: "query_td (?us ! 1) = Inr [td ''2021002'', unreadable_td, td ''BRAND''] \<and>
      3 \<le> length [td ''2021002'', unreadable_td, td ''BRAND''] \<and>
      1 < length [td ''2021002'', unreadable_td, td ''BRAND''] \<and>
      inner_text ([td ''2021002'', unreadable_td, td ''BRAND''] ! 1) = Inl PlaywrightError"
    by (simp add: q_unread unreadable_td_def)
  let ?out1 = "\<lambda>is. concat (map (\<lambda>i. case query_td (?rs ! i) of
                                 Inl e \<Rightarrow> []
                               | Inr cs \<Rightarrow>
                                   if 3 \<le> length cs
                                   then [make_record i (map cell_text_of cs)]
                                   else []) is)"
  let ?out2 = "\<lambda>is. concat (map (\<lambda>i. case query_td (?us ! i) of
                                 Inl e \<Rightarrow> []
                               | Inr cs \<Rightarrow>
                                   if 3 \<le> length cs
                                   then [make_record i (map cell_text_of cs)]
                                   else []) is)"
  let ?rec = "make_record 1 (map cell_text_of [td ''2021002'', unreadable_td, td ''BRAND''])"
  have r1: "scrape_results_table late_failure_page =
      Inr (?out1 [1..<3] @ ?out1 [Suc 3..<length ?rs])"
    by (rule row_failures_are_contained [THEN mp, OF h1, unfolded Let_def, THEN conjunct1,
          THEN mp, OF a])
  have r2: "scrape_results_table unreadable_page =
      Inr (?out2 [1..<1] @ [?rec] @ ?out2 [Suc 1..<length ?us]) \<and>
      row_number ?rec = int 1 + 1 \<and> raw_data ?rec ! 1 = [] \<and>
      length (raw_data ?rec) = length [td ''2021002'', unreadable_td, td ''BRAND'']"
    by (rule row_failures_are_contained [THEN mp, OF h2, unfolded Let_def, THEN conjunct2,
          THEN mp, OF b])
  have n1: "map row_number (?out1 [1..<3] @ ?out1 [Suc 3..<length ?rs]) = [2, 3, 5]"
    by (simp add: upt_rec q_full q_last row_number_make_record)
  have n2: "map row_number (?out2 [1..<1] @ [?rec] @ ?out2 [Suc 1..<length ?us]) = [2, 3]"
    by (simp add: upt_rec q_last row_number_make_record)
  have n3: "(?out2 [1..<1] @ [?rec] @ ?out2 [Suc 1..<length ?us]) ! 0 = ?rec"
    by simp
  have w1: "\<exists>data. scrape_results_table late_failure_page = Inr data \<and>
           map row_number data = [2, 3, 5]"
    by (rule exI, rule conjI, rule r1, rule n1)
  have w2: "\<exists>data. scrape_results_table unreadable_page = Inr data \<and>
           map row_number data = [2, 3] \<and> raw_data (data ! 0) ! 1 = []"
    by (rule exI, rule conjI, rule r2 [THEN conjunct1], rule conjI, rule n2)
       (simp only: n3 r2 [THEN conjunct2, THEN conjunct2, THEN conjunct1])
  from w1 w2 show ?thesis ..
qed

text \<open>
  The column count that discovery reports is the number of \<open>td\<close> and \<open>th\<close> cells
  of the first row.
\<close>

lemma discovery_width:
  assumes "find_results_table tables = Some (t, ti, nr, nc)"
  shows "\<exists>rs. query_tr t = Inr rs \<and> query_td_th (rs ! 0) = Inr (cells (rs ! 0)) \<and>
           nc = length (cells (rs ! 0))"
proof -
  from assms have "check_table t = Inr (Some (nr, nc))"
    using find_from_Some [of 0 tables t ti nr nc] by (simp add: find_results_table_def)
  from check_table_Some [OF this] obtain rs fc where
    q: "query_tr t = Inr rs" and fc: "query_td_th (rs ! 0) = Inr fc" "nc = length fc"
    by blast
  from fc(1) have "fc = cells (rs ! 0)"
    by (simp add: query_td_th_def split: option.splits)
  with q fc show ?thesis by blast
qed

text \<open>
  Claim C10. A row whose cells are all \<open>th\<close> adds no record, and no record of the
  output carries its number: the row's \<open>td\<close> query is empty, while its \<open>td, th\<close>
  query, the one discovery uses to count the columns of the first row, returns all of
  its cells.
\<close>

theorem th_only_rows_are_excluded:
  assumes "j < length rs" and "\<forall>c\<in>set (cells (rs ! j)). kind c = Th"
  shows "row_records j (rs ! j) = [] \<and>
         (\<forall>rec\<in>set (parse_rows s rs). row_number rec \<noteq> int j + 1) \<and>
         (query_error (rs ! j) = None \<longrightarrow>
            query_td (rs ! j) = Inr [] \<and> query_td_th (rs ! j) = Inr (cells (rs ! j))) \<and>
         (find_results_table tables = Some (t, ti, nr, nc) \<longrightarrow>
            (\<exists>rs0. query_tr t = Inr rs0 \<and> query_td_th (rs0 ! 0) = Inr (cells (rs0 ! 0)) \<and>
                   nc = length (cells (rs0 ! 0))))"
proof -
  from assms(2) have flt: "filter (\<lambda>c. kind c = Td) (cells (rs ! j)) = []"
    by (auto simp: filter_empty_conv)
  then have r: "row_records j (rs ! j) = []"
    by (simp add: row_records_cases query_td_def split: option.splits)
  from no_record_for_row [OF r]
  have n: "\<forall>rec\<in>set (parse_rows s rs). row_number rec \<noteq> int j + 1" .
  from flt have q: "query_error (rs ! j) = None \<longrightarrow>
            query_td (rs ! j) = Inr [] \<and> query_td_th (rs ! j) = Inr (cells (rs ! j))"
    by (simp add: query_td_def query_td_th_def)
  have w: "find_results_table tables = Some (t, ti, nr, nc) \<longrightarrow>
            (\<exists>rs0. query_tr t = Inr rs0 \<and> query_td_th (rs0 ! 0) = Inr (cells (rs0 ! 0)) \<and>
                   nc = length (cells (rs0 ! 0)))"
    using discovery_width by blast
  from r n q w show ?thesis by blast
qed

theorem th_only_rows_are_excluded_witness:
  "row_records 0 ([th_header_row, full_row, last_row] ! 0) = [] \<and>
   1 \<notin> row_number ` set (parse_rows 0 [th_header_row, full_row, last_row]) \<and>
   query_td ([th_header_row, full_row, last_row] ! 0) = Inr [] \<and>
   (\<exists>rs0. query_tr th_header_table = Inr rs0 \<and> length (cells (rs0 ! 0)) = 3)"
proof -
  have h1: "0 < length [th_header_row, full_row, last_row]"
    by simp
  have h2: "\<forall>c\<in>set (cells ([th_header_row, full_row, last_row] ! 0)). kind c = Th"
    by (simp add: th_header_row_def dom_row_def th_def)
  have h3: "query_error ([th_header_row, full_row, last_row] ! 0) = None"
    by (simp add: th_header_row_def dom_row_def)
  have h4: "find_results_table [th_header_table] = Some (th_header_table, 0, 3, 3)"
    by (simp add: find_results_table_def check_table_def query_defs th_header_table_def
        th_header_row_def example_defs str_defs)
  from th_only_rows_are_excluded [OF h1 h2, of 0 "[th_header_table]" th_header_table 0 3 3] h3 h4
  show ?thesis by auto
qed

section \<open>Properties of the workflow steps\<close>

lemmas io_defs = bind_io_def catch_io_def call_def query_def return_io_def raise_io_def

text \<open>
  Claim C8. When the checkbox is found and already checked, the filter selector returns
  normally and performs no action on the page: no click and no settle delay.
\<close>

theorem already_checked_is_noop:
  assumes "wait_checkbox p = Inr True" and "checked_before p = Inr True"
  shows "select_brand_document_type p = (Inr (), []) \<and>
         Click BRAND_CHECKBOX_ID \<notin> set (snd (select_brand_document_type p)) \<and>
         WaitForTimeout 2000 \<notin> set (snd (select_brand_document_type p))"
  using assms by (simp add: select_brand_document_type_def io_defs)

theorem already_checked_is_noop_witness:
  "select_brand_document_type checked_page = (Inr (), []) \<and>
   Click BRAND_CHECKBOX_ID \<notin> set (snd (select_brand_document_type checked_page)) \<and>
   WaitForTimeout 2000 \<notin> set (snd (select_brand_document_type checked_page))"
proof -
  have h1: "wait_checkbox checked_page = Inr True"
    by (simp add: checked_page_def)
  have h2: "checked_before checked_page = Inr True"
    by (simp add: checked_page_def)
  from already_checked_is_noop [OF h1 h2] show ?thesis .
qed

text \<open>
  Claim C5. The results waiter never raises and always returns a boolean. When the wait
  for the indicator to appear, the wait for it to disappear, or one of the two fixed
  delays raises, the result is whether the current URL contains \<open>SearchResults.aspx\<close>.
  Otherwise the result is whether the URL read after the first delay contains it or,
  failing that, whether the URL read after the second delay does.
\<close>

theorem waiter_returns_boolean:
  "fst (wait_for_search_results p) =
     Inr (case indicator_appears p of
            Inl e \<Rightarrow> contains (str ''SearchResults.aspx'') (url_on_error p)
          | Inr _ \<Rightarrow>
              (case indicator_hides p of
                 Inl e \<Rightarrow> contains (str ''SearchResults.aspx'') (url_on_error p)
               | Inr _ \<Rightarrow>
                   (case load_wait p of
                      Inl e \<Rightarrow> contains (str ''SearchResults.aspx'') (url_on_error p)
                    | Inr _ \<Rightarrow>
                        if contains (str ''SearchResults.aspx'') (url_first p) then True
                        else
                          (case extra_wait p of
                             Inl e \<Rightarrow> contains (str ''SearchResults.aspx'') (url_on_error p)
                           | Inr _ \<Rightarrow> contains (str ''SearchResults.aspx'') (url_second p)))))"
  by (simp add: wait_for_search_results_def wait_body_def on_results_page_def io_defs
      split: sum.splits)

theorem waiter_returns_boolean_witness:
  "fst (wait_for_search_results timeout_page) = Inr True \<and>
   fst (wait_for_search_results hides_timeout_page) = Inr False \<and>
   fst (wait_for_search_results slow_page) = Inr True"
proof -
  have a: "fst (wait_for_search_results timeout_page) = Inr True"
    using waiter_returns_boolean [of timeout_page]
    by (simp add: timeout_page_def str_def)
  have b: "fst (wait_for_search_results hides_timeout_page) = Inr False"
    using waiter_returns_boolean [of hides_timeout_page]
    by (simp add: hides_timeout_page_def SEARCH_ENTRY_URL_def str_def)
  have c: "fst (wait_for_search_results slow_page) = Inr True"
    using waiter_returns_boolean [of slow_page]
    by (simp add: slow_page_def SEARCH_ENTRY_URL_def str_def)
  from a b c show ?thesis by simp
qed

lemma fst_bind_io:
  "fst (bind_io m f) = (case fst m of Inl e \<Rightarrow> Inl e | Inr x \<Rightarrow> fst (f x))"
  by (simp add: bind_io_def split: prod.splits sum.splits)

lemma snd_bind_io:
  "snd (bind_io m f) = (case fst m of Inl e \<Rightarrow> snd m | Inr x \<Rightarrow> snd m @ snd (f x))"
  by (simp add: bind_io_def split: prod.splits sum.splits)

lemma catch_return_unit:
  "catch_io m (\<lambda>e. return_io ()) = (Inr (), snd m)"
  by (simp add: catch_io_def return_io_def split: prod.splits sum.splits)

lemma run_block_Cons_trace:
  "\<exists>tr. snd (run_block fs (a # as)) = a # tr"
  by (simp add: snd_bind_io call_def split: sum.splits)

lemma save_results_trace:
  assumes "data \<noteq> []"
  shows "save_results fs data =
     (Inr (),
      snd (run_block fs [OpenFile OUTPUT_CSV, WriteHeader fieldnames, WriteRows data]) @
      snd (run_block fs
             (OpenFile OUTPUT_JSONL # map (\<lambda>record. WriteStr (json_dumps record @ [10])) data)))"
  using assms unfolding save_results_def
  by (simp only: catch_return_unit if_False bind_io_def prod.case sum.case)

lemma fst_save_results: "fst (save_results fs data) = Inr ()"
  by (cases "data = []") (simp_all add: save_results_trace, simp add: save_results_def return_io_def)

lemma run_block_trace:
  "snd (run_block fs as) =
     takeWhile (\<lambda>a. fs a = Inr ()) as @ take 1 (dropWhile (\<lambda>a. fs a = Inr ()) as)"
proof (induction as)
  case Nil
  show ?case by (simp add: return_io_def)
next
  case (Cons a as)
  show ?case
  proof (cases "fs a")
    case (Inl e)
    then show ?thesis
      by (simp add: bind_io_def call_def)
  next
    case (Inr u)
    then show ?thesis
      using Cons.IH by (simp add: snd_bind_io call_def)
  qed
qed

text \<open>
  Claim C6. For a non-empty sequence of records the persister never raises, and what it
  does for one format does not depend on the other: the operations on the CSV file are
  performed in order up to and including the first one that fails, and then, whatever
  happened there, the JSONL file is opened and one line per record is written, again up
  to and including the first operation that fails. In particular both files are opened.
\<close>

theorem both_formats_are_attempted:
  assumes "data \<noteq> []"
  shows "save_results fs data =
     (Inr (),
      (let csv = [OpenFile OUTPUT_CSV, WriteHeader fieldnames, WriteRows data];
           jsonl = OpenFile OUTPUT_JSONL # map (\<lambda>r. WriteStr (json_dumps r @ [10])) data;
           ok = (\<lambda>a. fs a = Inr ())
       in (takeWhile ok csv @ take 1 (dropWhile ok csv)) @
          (takeWhile ok jsonl @ take 1 (dropWhile ok jsonl)))) \<and>
     OpenFile OUTPUT_CSV \<in> set (snd (save_results fs data)) \<and>
     OpenFile OUTPUT_JSONL \<in> set (snd (save_results fs data))"
proof -
  let ?csv = "[OpenFile OUTPUT_CSV, WriteHeader fieldnames, WriteRows data]"
  let ?jsonl = "OpenFile OUTPUT_JSONL # map (\<lambda>r. WriteStr (json_dumps r @ [10])) data"
  let ?ok = "\<lambda>a. fs a = Inr ()"
  have t: "save_results fs data =
      (Inr (), (takeWhile ?ok ?csv @ take 1 (dropWhile ?ok ?csv)) @
               (takeWhile ?ok ?jsonl @ take 1 (dropWhile ?ok ?jsonl)))"
    unfolding save_results_trace [OF assms] by (simp only: run_block_trace)
  obtain tr1 where t1: "snd (run_block fs ?csv) = OpenFile OUTPUT_CSV # tr1"
    using run_block_Cons_trace by blast
  obtain tr2 where t2: "snd (run_block fs ?jsonl) = OpenFile OUTPUT_JSONL # tr2"
    using run_block_Cons_trace by blast
  have "save_results fs data = (Inr (), (OpenFile OUTPUT_CSV # tr1) @ OpenFile OUTPUT_JSONL # tr2)"
    unfolding save_results_trace [OF assms] by (simp only: t1 t2)
  then have m: "OpenFile OUTPUT_CSV \<in> set (snd (save_results fs data))"
    "OpenFile OUTPUT_JSONL \<in> set (snd (save_results fs data))"
    by simp_all
  from t m show ?thesis
    unfolding Let_def by blast
qed

theorem both_formats_are_attempted_witness:
  "save_results csv_fails [example_record] =
     (Inr (), [OpenFile OUTPUT_CSV, OpenFile OUTPUT_JSONL,
               WriteStr (json_dumps example_record @ [10])]) \<and>
   save_results jsonl_write_fails [example_record] =
     (Inr (), [OpenFile OUTPUT_CSV, WriteHeader fieldnames, WriteRows [example_record],
               OpenFile OUTPUT_JSONL, WriteStr (json_dumps example_record @ [10])])"
proof -
  have h: "[example_record] \<noteq> []"
    by simp
  have a: "save_results csv_fails [example_record] =
     (Inr (), [OpenFile OUTPUT_CSV, OpenFile OUTPUT_JSONL,
               WriteStr (json_dumps example_record @ [10])])"
    using both_formats_are_attempted [OF h, of csv_fails, THEN conjunct1]
    by (simp add: Let_def csv_fails_def OUTPUT_CSV_def OUTPUT_JSONL_def str_def)
  have b: "save_results jsonl_write_fails [example_record] =
     (Inr (), [OpenFile OUTPUT_CSV, WriteHeader fieldnames, WriteRows [example_record],
               OpenFile OUTPUT_JSONL, WriteStr (json_dumps example_record @ [10])])"
    using both_formats_are_attempted [OF h, of jsonl_write_fails, THEN conjunct1]
    by (simp add: Let_def jsonl_write_fails_def)
  from a b show ?thesis ..
qed

lemma fst_wait_for_search_results: "\<exists>b. fst (wait_for_search_results p) = Inr b"
  by (simp add: wait_for_search_results_def catch_io_def return_io_def split: prod.splits sum.splits)

lemma scrape_results_table_Inr: "\<exists>data. scrape_results_table p = Inr data"
  by (simp add: scrape_results_table_def split: sum.splits)

lemma fst_finally_io:
  "fst (finally_io m (Inr (), tr)) = fst m"
  by (cases m) (simp add: finally_io_def)

lemma fst_pipeline_tail:
  "fst (bind_io (wait_for_search_results w) (\<lambda>_.
          bind_io (query (scrape_results_table r)) (\<lambda>data. save_results fs data))) = Inr ()"
proof -
  obtain b where b: "fst (wait_for_search_results w) = Inr b"
    using fst_wait_for_search_results by blast
  obtain data where d: "scrape_results_table r = Inr data"
    using scrape_results_table_Inr by blast
  show ?thesis
    by (simp add: fst_bind_io b d query_def fst_save_results)
qed

text \<open>
  Claim C7, amended. Once the browser is started (and when closing it succeeds), the run
  is aborted exactly by a failure of the navigation, of the filter selector or of the
  search submitter, whose exception is re-raised. Failures inside the results waiter,
  the table extractor and the persister are caught: when the body of the extractor
  raises, the extractor returns the empty list and the run goes on.
\<close>

theorem failures_that_abort_the_run:
  assumes "startup env = Inr ()" and "close_browser env = Inr ()"
  shows "fst (main env) =
           (case goto_page env of
              Inl e \<Rightarrow> Inl e
            | Inr _ \<Rightarrow>
                (case fst (select_brand_document_type (checkbox env)) of
                   Inl e \<Rightarrow> Inl e
                 | Inr _ \<Rightarrow>
                     (case fst (click_search_button (search env)) of
                        Inl e \<Rightarrow> Inl e
                      | Inr _ \<Rightarrow> Inr ()))) \<and>
         (\<exists>data. scrape_results_table (results env) = Inr data \<and>
            (\<forall>e. scrape_body (results env) = Inl e \<longrightarrow> data = []))"
proof -
  obtain b where b: "fst (wait_for_search_results (waiting env)) = Inr b"
    using fst_wait_for_search_results by blast
  obtain data where d: "scrape_results_table (results env) = Inr data"
    using scrape_results_table_Inr by blast
  have m: "fst (main env) =
           (case goto_page env of
              Inl e \<Rightarrow> Inl e
            | Inr _ \<Rightarrow>
                (case fst (select_brand_document_type (checkbox env)) of
                   Inl e \<Rightarrow> Inl e
                 | Inr _ \<Rightarrow>
                     (case fst (click_search_button (search env)) of
                        Inl e \<Rightarrow> Inl e
                      | Inr _ \<Rightarrow> Inr ())))"
    unfolding main_def
    by (simp add: assms fst_bind_io fst_finally_io call_def query_def b d fst_save_results
        split: sum.splits)
  have s: "\<exists>data. scrape_results_table (results env) = Inr data \<and>
            (\<forall>e. scrape_body (results env) = Inl e \<longrightarrow> data = [])"
    by (simp add: scrape_results_table_def split: sum.splits)
  from m s show ?thesis by blast
qed


theorem failures_that_abort_the_run_witness:
  "fst (main missing_checkbox_env) = Inl TimeoutError"
proof -
  have h1: "startup missing_checkbox_env = Inr ()"
    by (simp add: missing_checkbox_env_def)
  have h2: "close_browser missing_checkbox_env = Inr ()"
    by (simp add: missing_checkbox_env_def)
  have g: "goto_page missing_checkbox_env = Inr ()"
    by (simp add: missing_checkbox_env_def)
  have s: "fst (select_brand_document_type (checkbox missing_checkbox_env)) = Inl TimeoutError"
    by (simp add: missing_checkbox_env_def missing_checkbox_page_def select_brand_document_type_def
        io_defs)
  from failures_that_abort_the_run [OF h1 h2, THEN conjunct1] show ?thesis
    by (simp add: g s)
qed

text \<open>
  Claim C7, as stated: a failure during table extraction aborts the run. It does not: in
  the environment below the wait for a table times out, and the run ends normally after
  navigating, clicking the search button and closing the browser.
\<close>

theorem extraction_failure_does_not_abort:
  "scrape_body (results no_table_env) = Inl TimeoutError \<and>
   main no_table_env =
     (Inr (), [Goto SEARCH_ENTRY_URL, Click (str ''input[type='submit'][value*='Search']''),
               CloseBrowser])"
proof -
  have b: "scrape_body (results no_table_env) = Inl TimeoutError"
    by (simp add: no_table_env_def no_table_page_def scrape_body_def)
  have sel: "select_brand_document_type (checkbox no_table_env) = (Inr (), [])"
    by (simp add: no_table_env_def checked_page_def select_brand_document_type_def io_defs)
  have clk: "click_search_button (search no_table_env) =
      (Inr (), [Click (str ''input[type='submit'][value*='Search']'')])"
    by (simp add: no_table_env_def button_page_def click_search_button_def search_selectors_def
        io_defs)
  have wb: "wait_body timeout_page = (Inl TimeoutError, [])"
    by (simp add: wait_body_def timeout_page_def io_defs)
  have "contains (str ''SearchResults.aspx'') (url_on_error timeout_page)"
    by (simp add: timeout_page_def str_def)
  then have w: "wait_for_search_results (waiting no_table_env) = (Inr True, [])"
    by (simp add: no_table_env_def wait_for_search_results_def wb catch_io_def return_io_def
        on_results_page_def)
  have sc: "scrape_results_table (results no_table_env) = Inr []"
    by (simp add: scrape_results_table_def b)
  have "main no_table_env =
     (Inr (), [Goto SEARCH_ENTRY_URL, Click (str ''input[type='submit'][value*='Search']''),
               CloseBrowser])"
    unfolding main_def sel clk w sc
    by (simp add: no_table_env_def io_defs finally_io_def save_results_def)
  with b show ?thesis by simp
qed

section \<open>Properties of the JSON lines\<close>

declare scanstring.simps [simp del]

lemma hex_val_hex_digit: "d < 16 \<Longrightarrow> hex_val (hex_digit d) = Some d"
  by (auto simp: hex_val_def hex_digit_def)

lemma nibbles: "n < 65536 \<Longrightarrow>
  n div 4096 mod 16 * 4096 + n div 256 mod 16 * 256 + n div 16 mod 16 * 16 + n mod 16 = (n::nat)"
proof -
  assume a: "n < 65536"
  have d2: "n div 256 = n div 16 div 16" and d3: "n div 4096 = n div 16 div 16 div 16"
    by (simp_all add: div_mult2_eq)
  from a have "n div 4096 < 16" by simp
  then have m3: "n div 4096 mod 16 = n div 16 div 16 div 16"
    by (simp add: d3)
  have e1: "n = 16 * (n div 16) + n mod 16"
    by simp
  have e2: "n div 16 = 16 * (n div 16 div 16) + n div 16 mod 16"
    by simp
  have e3: "n div 16 div 16 = 16 * (n div 16 div 16 div 16) + n div 16 div 16 mod 16"
    by simp
  show ?thesis
    unfolding m3 d2 using e1 e2 e3 by linarith
qed

lemma decode_u_escape:
  assumes "n < 65536"
  shows "decode_uXXXX (hex_digit (n div 4096 mod 16) # hex_digit (n div 256 mod 16) #
           hex_digit (n div 16 mod 16) # hex_digit (n mod 16) # t) = Some n"
proof -
  have "n div 4096 mod 16 < 16" "n div 256 mod 16 < 16" "n div 16 mod 16 < 16" "n mod 16 < 16"
    by simp_all
  then show ?thesis
    unfolding decode_uXXXX_def
    by (simp only: list.case hex_val_hex_digit prod.case option.case nibbles [OF assms])
qed

lemma scanstring_plain:
  "c \<noteq> 34 \<Longrightarrow> c \<noteq> 92 \<Longrightarrow> 32 \<le> c \<Longrightarrow> scanstring (c # t) = push c (scanstring t)"
  by (subst scanstring.simps) simp

lemma scanstring_quote: "scanstring (34 # t) = Some ([], t)"
  by (subst scanstring.simps) simp

lemma scanstring_backslash:
  "esc \<noteq> 117 \<Longrightarrow> backslash esc = Some ch \<Longrightarrow>
     scanstring (92 # esc # t) = push ch (scanstring t)"
  by (subst scanstring.simps) simp

lemma scanstring_u:
  assumes "decode_uXXXX (a # b # c # d # t) = Some uni"
  shows "scanstring (92 # 117 # a # b # c # d # t) =
     (if 55296 \<le> uni \<and> uni \<le> 56319 \<and> take 2 t = [92, 117] then
        (case decode_uXXXX (drop 2 t) of
           None \<Rightarrow> None
         | Some uni2 \<Rightarrow>
             if 56320 \<le> uni2 \<and> uni2 \<le> 57343
             then push (65536 + ((uni - 55296) * 1024 + (uni2 - 56320))) (scanstring (drop 6 t))
             else push uni (scanstring t))
      else push uni (scanstring t))"
  by (subst scanstring.simps) (simp add: assms split: option.split)


lemma scanstring_u_single:
  assumes "decode_uXXXX (a # b # c # d # t) = Some uni"
    and "55296 \<le> uni \<and> uni \<le> 56319 \<longrightarrow> safe_after t"
  shows "scanstring (92 # 117 # a # b # c # d # t) = push uni (scanstring t)"
proof (cases "55296 \<le> uni \<and> uni \<le> 56319 \<and> take 2 t = [92, 117]")
  case True
  with assms(2) obtain u where u: "decode_uXXXX (drop 2 t) = Some u"
    "\<not> (56320 \<le> u \<and> u \<le> 57343)"
    unfolding safe_after_def by blast
  show ?thesis
    unfolding scanstring_u [OF assms(1)]
    by (simp only: True u(1) u(2) if_True if_False option.case simp_thms)
next
  case False
  show ?thesis
    unfolding scanstring_u [OF assms(1)] by (simp only: False if_False)
qed

lemma u_escape_Cons:
  "u_escape n @ t = 92 # 117 # hex_digit (n div 4096 mod 16) # hex_digit (n div 256 mod 16) #
     hex_digit (n div 16 mod 16) # hex_digit (n mod 16) # t"
  by (simp add: u_escape_def)

lemma scanstring_u_escape:
  assumes "n < 65536" and "55296 \<le> n \<and> n \<le> 56319 \<longrightarrow> safe_after t"
  shows "scanstring (u_escape n @ t) = push n (scanstring t)"
  unfolding u_escape_Cons
  by (rule scanstring_u_single [OF decode_u_escape [OF assms(1)] assms(2)])

lemma pair_join:
  assumes "65536 \<le> c" and "c < 1114112"
  shows "65536 + ((55296 + (c - 65536) div 1024 mod 1024 - 55296) * 1024 +
           (56320 + (c - 65536) mod 1024 - 56320)) = (c::nat)"
proof -
  from assms have "(c - 65536) div 1024 < 1024" by simp
  then have "(c - 65536) div 1024 mod 1024 = (c - 65536) div 1024" by simp
  moreover have "(c - 65536) div 1024 * 1024 + (c - 65536) mod 1024 = c - 65536"
    by simp
  ultimately show ?thesis using assms by simp
qed

lemma scanstring_pair:
  assumes "65536 \<le> c" and "c < 1114112"
  shows "scanstring (u_escape (55296 + (c - 65536) div 1024 mod 1024) @
                     u_escape (56320 + (c - 65536) mod 1024) @ t) = push c (scanstring t)"
proof -
  let ?hi = "55296 + (c - 65536) div 1024 mod 1024"
  let ?lo = "56320 + (c - 65536) mod 1024"
  have hi: "55296 \<le> ?hi" "?hi \<le> 56319" "?hi < 65536"
    by simp_all
  have lo: "56320 \<le> ?lo" "?lo \<le> 57343" "?lo < 65536"
    by simp_all
  have d1: "decode_uXXXX (hex_digit (?hi div 4096 mod 16) # hex_digit (?hi div 256 mod 16) #
           hex_digit (?hi div 16 mod 16) # hex_digit (?hi mod 16) # u_escape ?lo @ t) = Some ?hi"
    by (rule decode_u_escape [OF hi(3)])
  have t2: "take 2 (u_escape ?lo @ t) = [92, 117]"
    by (simp add: u_escape_def)
  have d2: "decode_uXXXX (drop 2 (u_escape ?lo @ t)) = Some ?lo"
    using decode_u_escape [OF lo(3)] by (simp add: u_escape_def)
  have d6: "drop 6 (u_escape ?lo @ t) = t"
    by (simp add: u_escape_def)
  have "scanstring (u_escape ?hi @ u_escape ?lo @ t) =
      push (65536 + ((?hi - 55296) * 1024 + (?lo - 56320))) (scanstring t)"
    unfolding u_escape_Cons [of ?hi] scanstring_u [OF d1]
    using hi(1,2) lo(1,2) by (simp only: t2 d2 d6 option.case if_True simp_thms)
  then show ?thesis
    by (simp only: pair_join [OF assms])
qed

lemma scanstring_escape_char:
  assumes "c < 1114112" and "55296 \<le> c \<and> c \<le> 56319 \<longrightarrow> safe_after t"
  shows "scanstring (escape_char c @ t) = push c (scanstring t)"
proof -
  consider (special) "c = 34 \<or> c = 92 \<or> c = 10 \<or> c = 13 \<or> c = 9 \<or> c = 8 \<or> c = 12"
    | (plain) "32 \<le> c" "c \<le> 126" "c \<noteq> 34" "c \<noteq> 92"
    | (single) "c \<noteq> 10" "c \<noteq> 13" "c \<noteq> 9" "c \<noteq> 8" "c \<noteq> 12" "c < 32 \<or> 126 < c" "c < 65536"
    | (pair) "65536 \<le> c"
    by linarith
  then show ?thesis
  proof cases
    case special
    then show ?thesis
      by (elim disjE) (simp_all add: escape_char_def scanstring_backslash backslash_def)
  next
    case plain
    then have "escape_char c = [c]"
      by (auto simp: escape_char_def)
    with plain show ?thesis
      by (simp add: scanstring_plain)
  next
    case single
    then have "escape_char c = u_escape c"
      by (auto simp: escape_char_def)
    with single assms(2) show ?thesis
      by (simp add: scanstring_u_escape)
  next
    case pair
    then have "escape_char c = u_escape (55296 + (c - 65536) div 1024 mod 1024) @
           u_escape (56320 + (c - 65536) mod 1024)"
      by (simp add: escape_char_def)
    then show ?thesis
      by (simp only: append_assoc scanstring_pair [OF pair assms(1)])
  qed
qed

lemma safe_after_quote: "safe_after (34 # t)"
  by (simp add: safe_after_def)

lemma safe_after_u_escape:
  assumes "n < 65536" and "\<not> (56320 \<le> n \<and> n \<le> 57343)"
  shows "safe_after (u_escape n @ t)"
proof -
  have "decode_uXXXX (drop 2 (u_escape n @ t)) = Some n"
    using decode_u_escape [OF assms(1)] by (simp add: u_escape_def)
  with assms(2) show ?thesis
    unfolding safe_after_def by blast
qed

lemma safe_after_escape_char:
  assumes "c < 1114112" and "\<not> (56320 \<le> c \<and> c \<le> 57343)"
  shows "safe_after (escape_char c @ t)"
proof -
  consider (special) "c = 34 \<or> c = 92 \<or> c = 10 \<or> c = 13 \<or> c = 9 \<or> c = 8 \<or> c = 12"
    | (plain) "32 \<le> c" "c \<le> 126" "c \<noteq> 34" "c \<noteq> 92"
    | (single) "c \<noteq> 10" "c \<noteq> 13" "c \<noteq> 9" "c \<noteq> 8" "c \<noteq> 12" "c < 32 \<or> 126 < c" "c < 65536"
    | (pair) "65536 \<le> c"
    by linarith
  then show ?thesis
  proof cases
    case special
    then show ?thesis
      by (elim disjE) (simp_all add: escape_char_def safe_after_def)
  next
    case plain
    then have "escape_char c = [c]"
      by (auto simp: escape_char_def)
    with plain show ?thesis
      by (simp add: safe_after_def)
  next
    case single
    then have "escape_char c = u_escape c"
      by (auto simp: escape_char_def)
    then show ?thesis
      by (simp only: safe_after_u_escape [OF single(7) assms(2)])
  next
    case pair
    let ?hi = "55296 + (c - 65536) div 1024 mod 1024"
    from pair have e: "escape_char c = u_escape ?hi @ u_escape (56320 + (c - 65536) mod 1024)"
      by (simp add: escape_char_def)
    have "?hi < 65536" "\<not> (56320 \<le> ?hi \<and> ?hi \<le> 57343)"
      by simp_all
    then have "safe_after (u_escape ?hi @ (u_escape (56320 + (c - 65536) mod 1024) @ t))"
      by (rule safe_after_u_escape)
    then show ?thesis
      by (simp only: e append_assoc)
  qed
qed

lemma valid_text_hd: "valid_text (c # s) \<Longrightarrow> c < 1114112"
  by (cases s) simp_all

lemma valid_text_tl: "valid_text (c # s) \<Longrightarrow> valid_text s"
  by (cases s) simp_all

lemma push_Some: "push x (Some (xs, r)) = Some (x # xs, r)"
  by (simp add: push_def)

lemma scanstring_encoded:
  "valid_text s \<Longrightarrow> scanstring (concat (map escape_char s) @ 34 # rest) = Some (s, rest)"
proof (induction s rule: valid_text.induct)
  case 1
  show ?case by (simp add: scanstring_quote)
next
  case (2 c)
  then have c: "c < 1114112" by simp
  have "scanstring (escape_char c @ 34 # rest) = push c (scanstring (34 # rest))"
    by (rule scanstring_escape_char [OF c]) (simp add: safe_after_quote)
  then show ?case
    by (simp add: scanstring_quote push_Some)
next
  case (3 c d s)
  let ?t = "concat (map escape_char (d # s)) @ 34 # rest"
  from "3.prems" have c: "c < 1114112"
    and nd: "\<not> (55296 \<le> c \<and> c \<le> 56319 \<and> 56320 \<le> d \<and> d \<le> 57343)"
    and v: "valid_text (d # s)"
    by simp_all
  from v have d: "d < 1114112" by (rule valid_text_hd)
  have sa: "55296 \<le> c \<and> c \<le> 56319 \<longrightarrow> safe_after ?t"
  proof
    assume "55296 \<le> c \<and> c \<le> 56319"
    with nd have "\<not> (56320 \<le> d \<and> d \<le> 57343)" by blast
    from safe_after_escape_char [OF d this] show "safe_after ?t"
      by simp
  qed
  have "scanstring (escape_char c @ ?t) = push c (scanstring ?t)"
    by (rule scanstring_escape_char [OF c sa])
  also have "\<dots> = push c (Some (d # s, rest))"
    using "3.IH" [OF v] by simp
  finally show ?case
    by (simp add: push_Some)
qed

lemma scan_once_string:
  assumes "valid_text s"
  shows "scan_once (Suc n) (encode_str s @ rest) = Some (JStr s, rest)"
  using scanstring_encoded [OF assms, of rest] by (simp add: encode_str_def)

declare digits.simps [simp del]

lemma digits_value_snoc: "digits_value (ds @ [d]) = digits_value ds * 10 + (d - 48)"
  by (simp add: digits_value_def)

lemma digits_value_digits: "digits_value (digits n) = n"
proof (induction n rule: digits.induct)
  case (1 n)
  show ?case
  proof (cases "n < 10")
    case True
    then show ?thesis
      by (subst digits.simps) (simp add: digits_value_def)
  next
    case False
    with 1 have "digits_value (digits (n div 10)) = n div 10" by simp
    with False show ?thesis
      by (subst digits.simps) (simp add: digits_value_snoc)
  qed
qed

lemma digits_are_digits: "c \<in> set (digits n) \<Longrightarrow> is_digit c"
proof (induction n rule: digits.induct)
  case (1 n)
  show ?case
  proof (cases "n < 10")
    case True
    with "1.prems" show ?thesis
      by (subst (asm) digits.simps) (simp add: is_digit_def)
  next
    case False
    from "1.prems" have "c \<in> set (digits (n div 10)) \<or> c = 48 + n mod 10"
      by (subst (asm) digits.simps) (use False in auto)
    then show ?thesis
    proof
      assume "c \<in> set (digits (n div 10))"
      with 1 False show ?thesis by simp
    next
      assume "c = 48 + n mod 10"
      then show ?thesis by (simp add: is_digit_def)
    qed
  qed
qed

lemma digits_head:
  "\<exists>d ds. digits n = d # ds \<and> 48 \<le> d \<and> d \<le> 57 \<and> (d = 48 \<longrightarrow> ds = [] \<and> n = 0)"
proof (induction n rule: digits.induct)
  case (1 n)
  show ?case
  proof (cases "n < 10")
    case True
    then show ?thesis
      by (subst digits.simps) simp
  next
    case False
    with 1 obtain d ds where h: "digits (n div 10) = d # ds" "48 \<le> d" "d \<le> 57"
      "d = 48 \<longrightarrow> ds = [] \<and> n div 10 = 0"
      by blast
    from False have "n div 10 \<noteq> 0" by simp
    with h have "d \<noteq> 48" by blast
    with h False show ?thesis
      by (subst digits.simps) simp
  qed
qed

lemma match_frac_follow: "c = 44 \<or> c = 125 \<Longrightarrow> match_frac (c # t) = ([], c # t)"
  by (auto simp: match_frac_def)

lemma match_exp_follow: "c = 44 \<or> c = 125 \<Longrightarrow> match_exp (c # t) = ([], c # t)"
  by (auto simp: match_exp_def)

lemma finish_number_follow:
  "c = 44 \<or> c = 125 \<Longrightarrow>
     finish_number integer (c # t) = Some (JInt (parse_int integer), c # t)"
  by (simp add: finish_number_def match_frac_follow match_exp_follow)

lemma number_digits:
  assumes "c = 44 \<or> c = 125"
  shows "(case digits m @ c # t of
           [] \<Rightarrow> None
         | d # r \<Rightarrow>
             if d = 48 then finish_number (sign @ [48]) r
             else if 49 \<le> d \<and> d \<le> 57
             then finish_number (sign @ d # takeWhile is_digit r) (dropWhile is_digit r)
             else None) =
         Some (JInt (parse_int (sign @ digits m)), c # t)"
proof -
  obtain d ds where h: "digits m = d # ds" "48 \<le> d" "d \<le> 57"
    "d = 48 \<longrightarrow> ds = [] \<and> m = 0"
    using digits_head by blast
  have all: "\<And>x. x \<in> set ds \<Longrightarrow> is_digit x"
    using digits_are_digits [of _ m] h(1) by simp
  have nd: "\<not> is_digit c"
    using assms by (auto simp: is_digit_def)
  have tw: "takeWhile is_digit (ds @ c # t) = ds"
    using all nd by (simp add: takeWhile_append2)
  have dw: "dropWhile is_digit (ds @ c # t) = c # t"
    using all nd by (simp add: dropWhile_append2)
  show ?thesis
  proof (cases "d = 48")
    case True
    with h have "ds = []" by simp
    with True h(1) show ?thesis
      by (simp add: finish_number_follow [OF assms])
  next
    case False
    with h have "49 \<le> d \<and> d \<le> 57" by simp
    with False h(1) show ?thesis
      by (simp add: tw dw finish_number_follow [OF assms])
  qed
qed

lemma parse_int_digits: "parse_int (digits m) = int m"
proof -
  obtain d ds where h: "digits m = d # ds" "48 \<le> d"
    using digits_head by blast
  then have "d \<noteq> 45" by simp
  with h(1) have "parse_int (digits m) = int (digits_value (digits m))"
    by (simp add: parse_int_def)
  then show ?thesis
    by (simp add: digits_value_digits)
qed

lemma parse_int_minus: "parse_int (45 # digits m) = - int m"
  by (simp add: parse_int_def digits_value_digits)

lemma match_number_int:
  assumes "c = 44 \<or> c = 125"
  shows "match_number (encode_int i @ c # t) = Some (JInt i, c # t)"
proof (cases "i < 0")
  case True
  then have e: "encode_int i = 45 # digits (nat (- i))"
    by (simp add: encode_int_def)
  have "match_number (45 # digits (nat (- i)) @ c # t) =
      Some (JInt (parse_int ([45] @ digits (nat (- i)))), c # t)"
    unfolding match_number_def using number_digits [OF assms, where m = "nat (- i)" and t = t and sign = "[45]"] by simp
  with True show ?thesis
    by (simp add: e parse_int_minus)
next
  case False
  then have e: "encode_int i = digits (nat i)"
    by (simp add: encode_int_def)
  obtain d ds where h: "digits (nat i) = d # ds" "48 \<le> d"
    using digits_head by blast
  then have d: "d \<noteq> 45" by simp
  have "match_number (digits (nat i) @ c # t) =
      Some (JInt (parse_int ([] @ digits (nat i))), c # t)"
    unfolding match_number_def using number_digits [OF assms, where m = "nat i" and t = t and sign = "[]"] h(1) d by simp
  with False show ?thesis
    by (simp add: e parse_int_digits)
qed

lemma scan_once_int:
  assumes "c = 44 \<or> c = 125"
  shows "scan_once (Suc n) (encode_int i @ c # t) = Some (JInt i, c # t)"
proof -
  obtain x xs where h: "encode_int i = x # xs" "x = 45 \<or> (48 \<le> x \<and> x \<le> 57)"
  proof (cases "i < 0")
    case True
    then have "encode_int i = 45 # digits (nat (- i))"
      by (simp add: encode_int_def)
    then show ?thesis using that by blast
  next
    case False
    then have "encode_int i = digits (nat i)"
      by (simp add: encode_int_def)
    moreover obtain d ds where "digits (nat i) = d # ds" "48 \<le> d" "d \<le> 57"
      using digits_head by blast
    ultimately show ?thesis using that by simp
  qed
  from h(2) have ne: "x \<noteq> 34" "x \<noteq> 123" "x \<noteq> 91" "x \<noteq> 110" "x \<noteq> 116" "x \<noteq> 102"
    by auto
  have m: "match_number (x # xs @ c # t) = Some (JInt i, c # t)"
    using match_number_int [OF assms, of i t] h(1) by simp
  show ?thesis
    unfolding h(1) using ne m by simp
qed

lemma skip_ws_nonspace: "\<not> is_ws c \<Longrightarrow> skip_ws (c # t) = c # t"
  by (simp add: skip_ws_def)

lemma skip_ws_space: "skip_ws (32 # t) = skip_ws t"
  by (simp add: skip_ws_def is_ws_def)

lemma not_ws: "\<not> is_ws 34" "\<not> is_ws 44" "\<not> is_ws 58" "\<not> is_ws 93" "\<not> is_ws 125" "\<not> is_ws 123"
  by (simp_all add: is_ws_def)

lemma encode_str_Cons: "encode_str s @ t = 34 # concat (map escape_char s) @ 34 # t"
  by (simp add: encode_str_def)

lemma array_loop_step:
  assumes "scan_once n s = Some (v, s1)"
  shows "array_loop (Suc n) s =
     (case skip_ws s1 of
        [] \<Rightarrow> None
      | c # s2 \<Rightarrow>
          if c = 93 then Some ([v], s2)
          else if c \<noteq> 44 then None
          else push v (array_loop n (skip_ws s2)))"
  by (simp add: assms)

lemma scan_once_array:
  "scan_once (Suc n) (91 # 34 # b) =
     map_option (\<lambda>(values, r'). (JList values, r')) (array_loop n (34 # b))"
  by (simp add: skip_ws_nonspace not_ws)

lemma scan_once_empty_array: "scan_once (Suc n) (91 # 93 # t) = Some (JList [], t)"
  by (simp add: skip_ws_nonspace not_ws)

declare scan_once.simps [simp del] array_loop.simps [simp del] object_loop.simps [simp del]

lemma join_head: "\<exists>b. join sep (encode_str y # zs) @ u = 34 # b"
  by (cases zs) (simp_all add: encode_str_def)

lemma array_loop_strings:
  assumes "\<forall>x\<in>set xs. valid_text x" and "xs \<noteq> []" and "length xs < n"
  shows "array_loop n (join (str '', '') (map encode_str xs) @ 93 # t) = Some (map JStr xs, t)"
  using assms
proof (induction xs arbitrary: n)
  case Nil
  then show ?case by simp
next
  case (Cons x xs)
  from Cons.prems obtain m where n: "n = Suc (Suc m)" "length xs \<le> m"
    by (cases n; cases "n - 1") auto
  from Cons.prems have vx: "valid_text x" by simp
  show ?case
  proof (cases xs)
    case Nil
    have "scan_once (Suc m) (encode_str x @ 93 # t) = Some (JStr x, 93 # t)"
      by (rule scan_once_string [OF vx])
    then have "array_loop (Suc (Suc m)) (encode_str x @ 93 # t) = Some ([JStr x], t)"
      by (simp add: array_loop_step skip_ws_nonspace not_ws)
    then show ?thesis
      unfolding Nil n by simp
  next
    case (Cons y ys)
    let ?rest = "join (str '', '') (encode_str y # map encode_str ys) @ 93 # t"
    have j: "join (str '', '') (map encode_str (x # y # ys)) @ 93 # t =
        encode_str x @ 44 # 32 # ?rest"
      by (simp add: str_def)
    have s: "scan_once (Suc m) (encode_str x @ 44 # 32 # ?rest) = Some (JStr x, 44 # 32 # ?rest)"
      by (rule scan_once_string [OF vx])
    obtain b where "?rest = 34 # b"
      using join_head [of "str '', ''" y "map encode_str ys" "93 # t"] by auto
    then have q: "skip_ws ?rest = ?rest"
      by (simp add: skip_ws_nonspace not_ws)
    have ih: "array_loop (Suc m) ?rest = Some (JStr y # map JStr ys, t)"
      using Cons.IH [of "Suc m"] Cons.prems n unfolding Cons by simp
    have "array_loop (Suc (Suc m)) (encode_str x @ 44 # 32 # ?rest) =
        Some (JStr x # map JStr (y # ys), t)"
      unfolding array_loop_step [OF s]
      by (simp add: skip_ws_nonspace skip_ws_space not_ws q ih push_Some)
    then show ?thesis
      unfolding Cons n j by simp
  qed
qed

lemma scan_once_list:
  assumes "\<forall>x\<in>set xs. valid_text x" and "length xs < n"
  shows "scan_once (Suc n) (encode_list (map encode_str xs) @ t) = Some (JList (map JStr xs), t)"
proof (cases xs)
  case Nil
  then show ?thesis
    by (simp add: encode_list_def scan_once_empty_array)
next
  case (Cons y ys)
  let ?body = "join (str '', '') (map encode_str xs) @ 93 # t"
  have e: "encode_list (map encode_str xs) @ t = 91 # ?body"
    by (simp add: encode_list_def)
  obtain b where b: "?body = 34 # b"
    unfolding Cons using join_head [of "str '', ''" y "map encode_str ys" "93 # t"] by auto
  have "array_loop n ?body = Some (map JStr xs, t)"
    using assms Cons by (intro array_loop_strings) simp_all
  then show ?thesis
    unfolding e b by (simp add: scan_once_array)
qed

lemma encode_str_key_tail: "encode_str k = 34 # key_tail k"
  by (simp add: encode_str_def key_tail_def)

lemma scanstring_key_tail:
  "valid_text k \<Longrightarrow> scanstring (key_tail k @ rest) = Some (k, rest)"
  using scanstring_encoded [of k rest] by (simp add: key_tail_def)

lemma object_loop_unfold:
  assumes "scanstring s = Some (key, 58 # 32 # venc)"
    and "skip_ws venc = venc"
    and "scan_once n venc = Some (v, s3)"
  shows "object_loop (Suc n) s =
     (case skip_ws s3 of
        [] \<Rightarrow> None
      | c' # s4 \<Rightarrow>
          if c' = 125 then Some ([(key, v)], s4)
          else if c' \<noteq> 44 then None
          else
            (case skip_ws s4 of
               [] \<Rightarrow> None
             | q # s5 \<Rightarrow>
                 if q \<noteq> 34 then None
                 else push (key, v) (object_loop n s5)))"
  by (subst object_loop.simps)
     (simp add: assms skip_ws_nonspace skip_ws_space not_ws)

lemma skip_ws_hd: "venc \<noteq> [] \<Longrightarrow> \<not> is_ws (hd venc) \<Longrightarrow> skip_ws (venc @ u) = venc @ u"
  by (cases venc) (simp_all add: skip_ws_nonspace)

lemma object_member_more:
  assumes "valid_text k" and "venc \<noteq> []" and "\<not> is_ws (hd venc)"
    and "\<And>u. scan_once n (venc @ 44 # u) = Some (v, 44 # u)"
  shows "object_loop (Suc n) (key_tail k @ 58 # 32 # venc @ 44 # 32 # encode_str k' @ rest) =
           push (k, v) (object_loop n (key_tail k' @ rest))"
proof -
  let ?u = "32 # encode_str k' @ rest"
  have a: "scanstring (key_tail k @ 58 # 32 # venc @ 44 # ?u) = Some (k, 58 # 32 # venc @ 44 # ?u)"
    by (rule scanstring_key_tail [OF assms(1)])
  have b: "skip_ws (venc @ 44 # ?u) = venc @ 44 # ?u"
    by (rule skip_ws_hd [OF assms(2,3)])
  have c: "scan_once n (venc @ 44 # ?u) = Some (v, 44 # ?u)"
    by (rule assms(4))
  show ?thesis
    unfolding object_loop_unfold [OF a b c]
    by (simp add: skip_ws_nonspace skip_ws_space not_ws encode_str_key_tail)
qed

lemma object_member_last:
  assumes "valid_text k" and "venc \<noteq> []" and "\<not> is_ws (hd venc)"
    and "scan_once n (venc @ 125 # t) = Some (v, 125 # t)"
  shows "object_loop (Suc n) (key_tail k @ 58 # 32 # venc @ 125 # t) = Some ([(k, v)], t)"
proof -
  have a: "scanstring (key_tail k @ 58 # 32 # venc @ 125 # t) = Some (k, 58 # 32 # venc @ 125 # t)"
    by (rule scanstring_key_tail [OF assms(1)])
  have b: "skip_ws (venc @ 125 # t) = venc @ 125 # t"
    by (rule skip_ws_hd [OF assms(2,3)])
  show ?thesis
    unfolding object_loop_unfold [OF a b assms(4)]
    by (simp add: skip_ws_nonspace not_ws)
qed

lemma scan_once_object:
  "scan_once (Suc n) (123 # encode_str k @ rest) =
     map_option (\<lambda>(pairs, r'). (JDict (dict_of pairs), r')) (object_loop n (key_tail k @ rest))"
  by (subst scan_once.simps) (simp add: encode_str_key_tail skip_ws_nonspace not_ws)

lemma encode_str_hd: "encode_str s \<noteq> []" "\<not> is_ws (hd (encode_str s))"
  by (simp_all add: encode_str_def not_ws)

lemma encode_int_hd: "encode_int i \<noteq> []" "\<not> is_ws (hd (encode_int i))"
proof -
  obtain d ds where "digits (nat i) = d # ds" "48 \<le> d"
    using digits_head by blast
  then show "encode_int i \<noteq> []" "\<not> is_ws (hd (encode_int i))"
    by (auto simp: encode_int_def is_ws_def)
qed

lemma encode_list_hd: "encode_list xs \<noteq> []" "\<not> is_ws (hd (encode_list xs))"
  by (simp_all add: encode_list_def is_ws_def)

lemma object_member_more_Some:
  assumes "valid_text k" and "venc \<noteq> []" and "\<not> is_ws (hd venc)"
    and "\<And>u. scan_once n (venc @ 44 # u) = Some (v, 44 # u)"
    and "object_loop n (key_tail k' @ rest) = Some (ps, t)"
  shows "object_loop (Suc n) (key_tail k @ 58 # 32 # venc @ 44 # 32 # encode_str k' @ rest) =
           Some ((k, v) # ps, t)"
  unfolding object_member_more [OF assms(1-4)] assms(5) by (rule push_Some)

lemma valid_keys:
  "valid_text (str ''row_number'')" "valid_text (str ''instrument_number'')"
  "valid_text (str ''date'')" "valid_text (str ''doc_type'')" "valid_text (str ''grantor'')"
  "valid_text (str ''grantee'')" "valid_text (str ''legal_description'')"
  "valid_text (str ''raw_data'')"
  by (simp_all add: str_def)

lemma separators: "str '', '' = [44, 32]" "str '': '' = [58, 32]"
  by (simp_all add: str_def)

lemma dict_of_record:
  "dict_of
     [(str ''row_number'', v1), (str ''instrument_number'', v2), (str ''date'', v3),
      (str ''doc_type'', v4), (str ''grantor'', v5), (str ''grantee'', v6),
      (str ''legal_description'', v7), (str ''raw_data'', v8)] =
     [(str ''row_number'', v1), (str ''instrument_number'', v2), (str ''date'', v3),
      (str ''doc_type'', v4), (str ''grantor'', v5), (str ''grantee'', v6),
      (str ''legal_description'', v7), (str ''raw_data'', v8)]"
  by (simp add: dict_of_def str_def)

lemma scan_once_record:
  assumes "valid_record r" and "length (raw_data r) < m"
  shows "scan_once (Suc (Suc (Suc (Suc (Suc (Suc (Suc (Suc (Suc (Suc m))))))))))
           (json_dumps r @ t) = Some (record_value r, t)"
proof -
  from assms(1) have v: "valid_text (instrument_number r)" "valid_text (date r)"
    "valid_text (doc_type r)" "valid_text (grantor r)" "valid_text (grantee r)"
    "valid_text (legal_description r)" "\<forall>x\<in>set (raw_data r). valid_text x"
    by (simp_all add: valid_record_def list_all_iff)
  define R8 where "R8 = 58 # 32 # encode_list (map encode_str (raw_data r)) @ 125 # t"
  define R7 where "R7 = 58 # 32 # encode_str (legal_description r) @ 44 # 32 #
    encode_str (str ''raw_data'') @ R8"
  define R6 where "R6 = 58 # 32 # encode_str (grantee r) @ 44 # 32 #
    encode_str (str ''legal_description'') @ R7"
  define R5 where "R5 = 58 # 32 # encode_str (grantor r) @ 44 # 32 #
    encode_str (str ''grantee'') @ R6"
  define R4 where "R4 = 58 # 32 # encode_str (doc_type r) @ 44 # 32 #
    encode_str (str ''grantor'') @ R5"
  define R3 where "R3 = 58 # 32 # encode_str (date r) @ 44 # 32 #
    encode_str (str ''doc_type'') @ R4"
  define R2 where "R2 = 58 # 32 # encode_str (instrument_number r) @ 44 # 32 #
    encode_str (str ''date'') @ R3"
  define R1 where "R1 = 58 # 32 # encode_int (row_number r) @ 44 # 32 #
    encode_str (str ''instrument_number'') @ R2"
  have dumps_eq: "json_dumps r @ t = 123 # encode_str (str ''row_number'') @ R1"
    unfolding R1_def R2_def R3_def R4_def R5_def R6_def R7_def R8_def
    by (simp add: json_dumps_def encode_dict_def separators)
  have l: "scan_once (Suc m) (encode_list (map encode_str (raw_data r)) @ 125 # t) =
      Some (JList (map JStr (raw_data r)), 125 # t)"
    by (rule scan_once_list [OF v(7) assms(2)])
  have i: "\<And>n u. scan_once (Suc n) (encode_int (row_number r) @ 44 # u) =
      Some (JInt (row_number r), 44 # u)"
    by (rule scan_once_int) simp
  have o8: "object_loop (Suc (Suc m)) (key_tail (str ''raw_data'') @ R8) =
      Some ([(str ''raw_data'', JList (map JStr (raw_data r)))], t)"
    unfolding R8_def by (rule object_member_last [OF valid_keys(8) encode_list_hd l])
  have o7: "object_loop (Suc (Suc (Suc m))) (key_tail (str ''legal_description'') @ R7) =
      Some ([(str ''legal_description'', JStr (legal_description r)),
             (str ''raw_data'', JList (map JStr (raw_data r)))], t)"
    unfolding R7_def
    by (rule object_member_more_Some [OF valid_keys(7) encode_str_hd scan_once_string [OF v(6)] o8])
  have o6: "object_loop (Suc (Suc (Suc (Suc m)))) (key_tail (str ''grantee'') @ R6) =
      Some ([(str ''grantee'', JStr (grantee r)),
             (str ''legal_description'', JStr (legal_description r)),
             (str ''raw_data'', JList (map JStr (raw_data r)))], t)"
    unfolding R6_def
    by (rule object_member_more_Some [OF valid_keys(6) encode_str_hd scan_once_string [OF v(5)] o7])
  have o5: "object_loop (Suc (Suc (Suc (Suc (Suc m))))) (key_tail (str ''grantor'') @ R5) =
      Some ([(str ''grantor'', JStr (grantor r)),
             (str ''grantee'', JStr (grantee r)),
             (str ''legal_description'', JStr (legal_description r)),
             (str ''raw_data'', JList (map JStr (raw_data r)))], t)"
    unfolding R5_def
    by (rule object_member_more_Some [OF valid_keys(5) encode_str_hd scan_once_string [OF v(4)] o6])
  have o4: "object_loop (Suc (Suc (Suc (Suc (Suc (Suc m)))))) (key_tail (str ''doc_type'') @ R4) =
      Some ([(str ''doc_type'', JStr (doc_type r)),
             (str ''grantor'', JStr (grantor r)),
             (str ''grantee'', JStr (grantee r)),
             (str ''legal_description'', JStr (legal_description r)),
             (str ''raw_data'', JList (map JStr (raw_data r)))], t)"
    unfolding R4_def
    by (rule object_member_more_Some [OF valid_keys(4) encode_str_hd scan_once_string [OF v(3)] o5])
  have o3: "object_loop (Suc (Suc (Suc (Suc (Suc (Suc (Suc m))))))) (key_tail (str ''date'') @ R3) =
      Some ([(str ''date'', JStr (date r)),
             (str ''doc_type'', JStr (doc_type r)),
             (str ''grantor'', JStr (grantor r)),
             (str ''grantee'', JStr (grantee r)),
             (str ''legal_description'', JStr (legal_description r)),
             (str ''raw_data'', JList (map JStr (raw_data r)))], t)"
    unfolding R3_def
    by (rule object_member_more_Some [OF valid_keys(3) encode_str_hd scan_once_string [OF v(2)] o4])
  have o2: "object_loop (Suc (Suc (Suc (Suc (Suc (Suc (Suc (Suc m))))))))
        (key_tail (str ''instrument_number'') @ R2) =
      Some ([(str ''instrument_number'', JStr (instrument_number r)),
             (str ''date'', JStr (date r)),
             (str ''doc_type'', JStr (doc_type r)),
             (str ''grantor'', JStr (grantor r)),
             (str ''grantee'', JStr (grantee r)),
             (str ''legal_description'', JStr (legal_description r)),
             (str ''raw_data'', JList (map JStr (raw_data r)))], t)"
    unfolding R2_def
    by (rule object_member_more_Some [OF valid_keys(2) encode_str_hd scan_once_string [OF v(1)] o3])
  have o1: "object_loop (Suc (Suc (Suc (Suc (Suc (Suc (Suc (Suc (Suc m)))))))))
        (key_tail (str ''row_number'') @ R1) =
      Some ([(str ''row_number'', JInt (row_number r)),
             (str ''instrument_number'', JStr (instrument_number r)),
             (str ''date'', JStr (date r)),
             (str ''doc_type'', JStr (doc_type r)),
             (str ''grantor'', JStr (grantor r)),
             (str ''grantee'', JStr (grantee r)),
             (str ''legal_description'', JStr (legal_description r)),
             (str ''raw_data'', JList (map JStr (raw_data r)))], t)"
    unfolding R1_def
    by (rule object_member_more_Some [OF valid_keys(1) encode_int_hd i o2])
  show ?thesis
    unfolding dumps_eq scan_once_object o1
    by (simp add: dict_of_record record_value_def)
qed

lemma length_join_strings: "length xs \<le> length (join sep (map encode_str xs))"
proof (induction xs)
  case Nil
  show ?case by simp
next
  case (Cons x xs)
  then show ?case
    by (cases xs) (simp_all add: encode_str_def)
qed

lemma length_json_dumps: "length (raw_data r) + 8 \<le> length (json_dumps r)"
proof -
  have "length (raw_data r) \<le> length (encode_list (map encode_str (raw_data r)))"
    using length_join_strings [of "raw_data r" "str '', ''"] by (simp add: encode_list_def)
  then show ?thesis
    by (simp add: json_dumps_def encode_dict_def separators)
qed

lemma json_dumps_head: "\<exists>b. json_dumps r @ t = 123 # b"
  by (simp add: json_dumps_def encode_dict_def)

lemma jsonl_round_trip:
  assumes "valid_record r"
  shows "json_loads (json_dumps r @ [10]) = Some (record_value r)"
proof -
  let ?s = "json_dumps r @ [10]"
  have bound: "length (raw_data r) + 10 < 2 * length ?s + 2"
    using length_json_dumps [of r] by simp
  define m where "m = 2 * length ?s + 2 - 10"
  have m: "2 * length ?s + 2 =
      Suc (Suc (Suc (Suc (Suc (Suc (Suc (Suc (Suc (Suc m)))))))))" "length (raw_data r) < m"
    using bound unfolding m_def by linarith+
  obtain b where b: "?s = 123 # b"
    using json_dumps_head by blast
  have sk: "skip_ws ?s = ?s"
    unfolding b by (simp add: skip_ws_nonspace not_ws)
  have sc: "scan_once (2 * length ?s + 2) ?s = Some (record_value r, [10])"
    unfolding m(1) by (rule scan_once_record [OF assms m(2)])
  have e: "skip_ws [10] = []"
    by (simp add: skip_ws_def is_ws_def)
  show ?thesis
    unfolding json_loads_def sk sc by (simp add: e)
qed

text \<open>
  Without the well-formedness of the texts the round trip fails: the two escapes of a
  high and a low surrogate that were separate code points come back as one.
\<close>

lemma split_pair_is_joined:
  "scanstring (concat (map escape_char [55357, 56832]) @ [34]) = Some ([128512], [])"
  by (simp add: escape_char_def u_escape_def hex_digit_def scanstring.simps decode_uXXXX_def
      hex_val_def push_def)

lemma run_block_trace_prefix: "\<exists>k. snd (run_block fs as) = take k as"
proof (induction as)
  case Nil
  show ?case by (simp add: return_io_def)
next
  case (Cons a as)
  then obtain k where k: "snd (run_block fs as) = take k as" by blast
  show ?case
  proof (cases "fs a")
    case (Inl e)
    then have "snd (run_block fs (a # as)) = take 1 (a # as)"
      by (simp add: bind_io_def call_def)
    then show ?thesis by blast
  next
    case (Inr u)
    then have "snd (run_block fs (a # as)) = take (Suc k) (a # as)"
      using k by (simp add: snd_bind_io call_def)
    then show ?thesis by blast
  qed
qed

lemma run_block_ok: "\<forall>a. fs a = Inr () \<Longrightarrow> run_block fs as = (Inr (), as)"
  by (induction as) (simp_all add: return_io_def bind_io_def call_def)

lemma lines_written_append: "lines_written (xs @ ys) = lines_written xs @ lines_written ys"
  by (simp add: lines_written_def)

lemma lines_written_WriteStr:
  "lines_written (map (\<lambda>r. WriteStr (f r)) xs) = map f xs"
  by (induction xs) (simp_all add: lines_written_def)

lemma lines_written_csv:
  "lines_written (take k [OpenFile c, WriteHeader h, WriteRows d]) = []"
proof -
  have "set (take k [OpenFile c, WriteHeader h, WriteRows d]) \<subseteq>
      {OpenFile c, WriteHeader h, WriteRows d}"
    using set_take_subset [of k "[OpenFile c, WriteHeader h, WriteRows d]"] by simp
  then have "\<forall>a\<in>set (take k [OpenFile c, WriteHeader h, WriteRows d]). written_line a = []"
    by auto
  then show ?thesis
    by (simp add: lines_written_def)
qed

lemma lines_written_jsonl:
  "lines_written (take k (OpenFile j # map (\<lambda>r. WriteStr (f r)) xs)) = map f (take (k - 1) xs)"
proof (cases k)
  case 0
  then show ?thesis by (simp add: lines_written_def)
next
  case (Suc n)
  have "lines_written (take n (map (\<lambda>r. WriteStr (f r)) xs)) = map f (take n xs)"
    using lines_written_WriteStr [of f "take n xs"] by (simp add: take_map)
  with Suc show ?thesis
    by (simp add: lines_written_def)
qed

lemma save_results_lines:
  "\<exists>k. lines_written (snd (save_results fs data)) = map (\<lambda>r. json_dumps r @ [10]) (take k data)"
proof (cases "data = []")
  case True
  then show ?thesis
    by (simp add: save_results_def return_io_def lines_written_def)
next
  case False
  obtain k1 where k1: "snd (run_block fs [OpenFile OUTPUT_CSV, WriteHeader fieldnames, WriteRows data]) =
      take k1 [OpenFile OUTPUT_CSV, WriteHeader fieldnames, WriteRows data]"
    using run_block_trace_prefix by blast
  obtain k2 where k2: "snd (run_block fs
        (OpenFile OUTPUT_JSONL # map (\<lambda>record. WriteStr (json_dumps record @ [10])) data)) =
      take k2 (OpenFile OUTPUT_JSONL # map (\<lambda>record. WriteStr (json_dumps record @ [10])) data)"
    using run_block_trace_prefix by blast
  have "lines_written (snd (save_results fs data)) =
      map (\<lambda>r. json_dumps r @ [10]) (take (k2 - 1) data)"
    unfolding save_results_trace [OF False] snd_conv lines_written_append k1 k2
    by (simp only: lines_written_csv lines_written_jsonl append_Nil)
  then show ?thesis by blast
qed

lemma round_trip_lines:
  assumes "list_all valid_record rs"
  shows "map json_loads (map (\<lambda>r. json_dumps r @ [10]) rs) = map (\<lambda>r. Some (record_value r)) rs"
  using assms by (induction rs) (simp_all add: jsonl_round_trip)

lemma valid_text_Cons:
  "valid_text (c # s) \<longleftrightarrow>
     c < 1114112 \<and> valid_text s \<and>
     (s \<noteq> [] \<longrightarrow> \<not> (55296 \<le> c \<and> c \<le> 56319 \<and> 56320 \<le> hd s \<and> hd s \<le> 57343))"
  by (cases s) (auto dest: valid_text_hd)

lemma valid_text_append: "valid_text (xs @ ys) \<Longrightarrow> valid_text xs \<and> valid_text ys"
proof (induction xs)
  case Nil
  then show ?case by simp
next
  case (Cons x xs)
  then have "valid_text (xs @ ys)"
    by (simp add: valid_text_Cons)
  with Cons.IH have "valid_text xs" "valid_text ys" by simp_all
  with Cons.prems show ?case
    by (cases xs) (simp_all add: valid_text_Cons)
qed

lemma valid_text_dropWhile: "valid_text s \<Longrightarrow> valid_text (dropWhile P s)"
  using valid_text_append [of "takeWhile P s" "dropWhile P s"] by simp

lemma valid_text_drop: "valid_text s \<Longrightarrow> valid_text (drop n s)"
  using valid_text_append [of "take n s" "drop n s"] by simp

lemma valid_text_rev_dropWhile_rev: "valid_text s \<Longrightarrow> valid_text (rev (dropWhile P (rev s)))"
proof -
  have "rev (takeWhile P (rev s) @ dropWhile P (rev s)) = s"
    by (simp only: takeWhile_dropWhile_id rev_rev_ident)
  then have "s = rev (dropWhile P (rev s)) @ rev (takeWhile P (rev s))"
    by (simp only: rev_append)
  then show "valid_text s \<Longrightarrow> valid_text (rev (dropWhile P (rev s)))"
    using valid_text_append [of "rev (dropWhile P (rev s))" "rev (takeWhile P (rev s))"] by simp
qed

lemma valid_text_strip: "valid_text s \<Longrightarrow> valid_text (strip s)"
  unfolding strip_def by (intro valid_text_rev_dropWhile_rev valid_text_dropWhile)

lemma valid_text_replace_from:
  "valid_text s \<Longrightarrow>
     valid_text (replace_from old [32] s) \<and>
     (\<forall>c. valid_text (c # s) \<longrightarrow> valid_text (c # replace_from old [32] s))"
proof (induction old "[32::nat]" s rule: replace_from.induct)
  case (1 old)
  show ?case by simp
next
  case (2 old c cs)
  show ?case
  proof (cases "old \<noteq> [] \<and> prefix old (c # cs)")
    case True
    have "valid_text (drop (length old) (c # cs))"
      using "2.prems" by (rule valid_text_drop)
    with "2.hyps"(1) True have v: "valid_text (replace_from old [32] (drop (length old) (c # cs)))"
      by blast
    have r: "replace_from old [32] (c # cs) =
        32 # replace_from old [32] (drop (length old) (c # cs))"
      using True by simp
    have v32: "valid_text (32 # replace_from old [32] (drop (length old) (c # cs)))"
      using v by (simp add: valid_text_Cons)
    have "\<forall>d. valid_text (d # c # cs) \<longrightarrow>
        valid_text (d # 32 # replace_from old [32] (drop (length old) (c # cs)))"
      using v32 by (simp add: valid_text_Cons [of _ "32 # _"])
    with v32 show ?thesis
      unfolding r by blast
  next
    case False
    from "2.prems" have "valid_text cs" by (rule valid_text_tl)
    with "2.hyps"(2) False have ih: "valid_text (replace_from old [32] cs)"
      "\<forall>d. valid_text (d # cs) \<longrightarrow> valid_text (d # replace_from old [32] cs)"
      by blast+
    have r: "replace_from old [32] (c # cs) = c # replace_from old [32] cs"
      using False by auto
    from ih(2) "2.prems" have v: "valid_text (c # replace_from old [32] cs)"
      by blast
    have "\<forall>d. valid_text (d # c # cs) \<longrightarrow> valid_text (d # c # replace_from old [32] cs)"
      using v by simp
    with v show ?thesis
      unfolding r by blast
  qed
qed

lemma valid_text_cell_text_of: "cell_ok c \<Longrightarrow> valid_text (cell_text_of c)"
proof (cases "inner_text c")
  case (Inl e)
  then show ?thesis by (simp add: cell_text_of_def)
next
  case (Inr t)
  assume "cell_ok c"
  with Inr have "valid_text t" by (simp add: cell_ok_def)
  then have "valid_text (replace_from nbsp [32] t)"
    using valid_text_replace_from by blast
  moreover have "replace t nbsp (str '' '') = replace_from nbsp [32] t"
    by (simp add: replace_def nbsp_def str_def)
  ultimately show ?thesis
    using Inr by (simp add: cell_text_of_def valid_text_strip)
qed

lemma valid_text_field_at:
  "list_all valid_text ts \<Longrightarrow> valid_text (field_at ts k)"
  by (simp add: field_at_def list_all_length)

lemma valid_record_make_record:
  "list_all cell_ok cs \<Longrightarrow> valid_record (make_record i (map cell_text_of cs))"
proof -
  assume "list_all cell_ok cs"
  then have a: "list_all valid_text (map cell_text_of cs)"
    by (simp add: list_all_iff valid_text_cell_text_of)
  then show ?thesis
    by (simp add: valid_record_def make_record_def valid_text_field_at)
qed

lemma row_records_valid:
  assumes "list_all cell_ok (cells r)"
  shows "list_all valid_record (row_records i r)"
proof (cases "query_td r")
  case (Inl e)
  then show ?thesis by (simp add: row_records_cases)
next
  case (Inr cs)
  then have "cs = filter (\<lambda>c. kind c = Td) (cells r)"
    by (simp add: query_td_def split: option.splits)
  with assms have "list_all cell_ok cs"
    by (simp add: list_all_iff)
  then show ?thesis
    using Inr by (simp add: row_records_cases valid_record_make_record)
qed

lemma parse_rows_valid:
  assumes "list_all (\<lambda>r. list_all cell_ok (cells r)) rs"
  shows "list_all valid_record (parse_rows s rs)"
  unfolding list_all_iff
proof
  fix rec
  assume "rec \<in> set (parse_rows s rs)"
  then obtain i where i: "i < length rs" "rec \<in> set (row_records i (rs ! i))"
    by (auto simp: in_parse_rows)
  with assms have "list_all cell_ok (cells (rs ! i))"
    by (simp add: list_all_length)
  from row_records_valid [OF this, of i] i(2) show "valid_record rec"
    by (simp add: list_all_iff)
qed

lemma extracted_records_are_valid:
  assumes "page_texts_valid p" and "scrape_results_table p = Inr data"
  shows "list_all valid_record data"
proof (cases "scrape_body p")
  case (Inl e)
  with assms(2) show ?thesis
    by (simp add: scrape_results_table_def)
next
  case (Inr d)
  with assms(2) have d: "d = data"
    by (simp add: scrape_results_table_def)
  show ?thesis
  proof (cases "tables_query p")
    case tq: (Inl e)
    with Inr show ?thesis
      by (simp add: scrape_body_def split: option.splits)
  next
    case tq: (Inr tables)
    show ?thesis
    proof (cases "find_results_table tables")
      case None
      with Inr tq d show ?thesis
        by (simp add: scrape_body_def split: option.splits)
    next
      case (Some sel)
      obtain t ti nr nc where sel: "sel = (t, ti, nr, nc)"
        by (cases sel)
      from Some sel have "ti < length tables \<and> tables ! ti = t"
        using find_from_Some [of 0 tables t ti nr nc] by (simp add: find_results_table_def)
      then have "t \<in> set tables" by auto
      moreover from assms(1) tq have
        "list_all (\<lambda>t. list_all (\<lambda>r. list_all cell_ok (cells r)) (rows t)) tables"
        by (simp add: page_texts_valid_def)
      ultimately have ok: "list_all (\<lambda>r. list_all cell_ok (cells r)) (rows t)"
        by (simp add: list_all_iff)
      from Inr tq Some sel have pt: "parse_table t = Inr data"
        using d by (simp add: scrape_body_def split: option.splits)
      then obtain rs where rs: "query_tr t = Inr rs"
        by (auto simp: parse_table_def split: sum.splits)
      then have "rs = rows t"
        by (simp add: query_tr_def split: option.splits)
      from parse_table_Inr [OF rs pt] obtain s where "data = parse_rows s rs"
        by blast
      with ok \<open>rs = rows t\<close> show ?thesis
        by (simp add: parse_rows_valid)
    qed
  qed
qed

text \<open>
  Claim C9. Every line written to the JSONL file, parsed back with \<open>json.loads\<close>,
  is the record it was written from: \<open>row_number\<close> as an integer, the six named fields as
  strings, \<open>raw_data\<close> as the same list of strings, under the same keys in the same order.
  When no file operation fails there is one such line per record. The records are those
  of well-formed texts: either they are well formed themselves, or they are what the
  extractor returns on a page whose texts are.
\<close>

theorem jsonl_lines_parse_back:
  assumes "list_all valid_record data \<or>
           (page_texts_valid p \<and> scrape_results_table p = Inr data)"
  shows "map json_loads (lines_written (snd (save_results fs data))) =
           map (\<lambda>r. Some (record_value r))
             (take (length (lines_written (snd (save_results fs data)))) data) \<and>
         ((\<forall>a. fs a = Inr ()) \<longrightarrow>
            lines_written (snd (save_results fs data)) = map (\<lambda>r. json_dumps r @ [10]) data)"
proof
  from assms have vd: "list_all valid_record data"
    using extracted_records_are_valid by blast
  obtain k where k: "lines_written (snd (save_results fs data)) =
      map (\<lambda>r. json_dumps r @ [10]) (take k data)"
    using save_results_lines by blast
  have v: "list_all valid_record (take k data)"
    using vd by (auto simp: list_all_iff dest: in_set_takeD)
  have a: "map json_loads (map (\<lambda>r. json_dumps r @ [10]) (take k data)) =
      map (\<lambda>r. Some (record_value r)) (take k data)"
    by (rule round_trip_lines [OF v])
  have b: "take (length (map (\<lambda>r. json_dumps r @ [10]) (take k data))) data = take k data"
    by (simp add: min_def)
  show "map json_loads (lines_written (snd (save_results fs data))) =
           map (\<lambda>r. Some (record_value r))
             (take (length (lines_written (snd (save_results fs data)))) data)"
    unfolding k by (simp only: a b)
next
  show "(\<forall>a. fs a = Inr ()) \<longrightarrow>
            lines_written (snd (save_results fs data)) = map (\<lambda>r. json_dumps r @ [10]) data"
  proof
    assume ok: "\<forall>a. fs a = Inr ()"
    show "lines_written (snd (save_results fs data)) = map (\<lambda>r. json_dumps r @ [10]) data"
    proof (cases "data = []")
      case True
      then show ?thesis
        by (simp add: save_results_def return_io_def lines_written_def)
    next
      case False
      show ?thesis
        unfolding save_results_trace [OF False] snd_conv run_block_ok [OF ok] lines_written_append
        using lines_written_csv [of 3 OUTPUT_CSV fieldnames data]
          lines_written_jsonl [of "Suc (length data)" OUTPUT_JSONL "\<lambda>r. json_dumps r @ [10]" data]
        by simp
    qed
  qed
qed

theorem jsonl_lines_parse_back_witness:
  "lines_written (snd (save_results files_ok [example_record])) =
     [json_dumps example_record @ [10]] \<and>
   map json_loads (lines_written (snd (save_results files_ok [example_record]))) =
     [Some (record_value example_record)]"
proof -
  have "list_all valid_record [example_record]"
    by (simp add: example_record_def make_record_def valid_record_def field_at_def str_def)
  then have h: "list_all valid_record [example_record] \<or>
      (page_texts_valid four_row_page \<and> scrape_results_table four_row_page = Inr [example_record])"
    by (rule disjI1)
  have ok: "\<forall>a. files_ok a = Inr ()"
    by (simp add: files_ok_def)
  have l: "lines_written (snd (save_results files_ok [example_record])) =
     [json_dumps example_record @ [10]]"
    using jsonl_lines_parse_back [OF h, of files_ok, THEN conjunct2, THEN mp, OF ok] by simp
  have p: "map json_loads (lines_written (snd (save_results files_ok [example_record]))) =
           map (\<lambda>r. Some (record_value r))
             (take (length (lines_written (snd (save_results files_ok [example_record]))))
                [example_record])"
    by (rule jsonl_lines_parse_back [OF h, of files_ok, THEN conjunct1])
  have "map json_loads [json_dumps example_record @ [10]] =
      map (\<lambda>r. Some (record_value r))
        (take (length [json_dumps example_record @ [10]]) [example_record])"
    using p unfolding l .
  then have "map json_loads [json_dumps example_record @ [10]] =
      [Some (record_value example_record)]"
    by simp
  then show ?thesis
    unfolding l by simp
qed

end
